theory Spec2Isabelle
  imports Main "HOL-Library.Word"
begin

unbundle bit_operations_syntax

section \<open>Go standard-library functions called by the bridge\<close>

text \<open>
  The bridge (\<^verbatim>\<open>main.go\<close>) decides everything the specification talks about through a
  handful of calls into the Go standard library. Those functions are not part of the
  repository; they are modelled here after their Go implementation so that the
  repository's own functions can be evaluated on concrete inputs. Go strings are byte
  sequences, and so are the \<^typ>\<open>string\<close>s of this theory.
\<close>

subsection \<open>Package strings\<close>

definition HasPrefix :: "string \<Rightarrow> string \<Rightarrow> bool" where
  "HasPrefix s pre = (take (length pre) s = pre)"

definition TrimLeft :: "string \<Rightarrow> string \<Rightarrow> string" where
  "TrimLeft s cutset = dropWhile (\<lambda>c. c \<in> set cutset) s"

definition TrimRight :: "string \<Rightarrow> string \<Rightarrow> string" where
  "TrimRight s cutset = rev (dropWhile (\<lambda>c. c \<in> set cutset) (rev s))"

definition Trim :: "string \<Rightarrow> string \<Rightarrow> string" where
  "Trim s cutset = TrimRight (TrimLeft s cutset) cutset"

subsection \<open>Package strconv\<close>

definition is_digit :: "char \<Rightarrow> bool" where
  "is_digit c = (48 \<le> (of_char c :: nat) \<and> (of_char c :: nat) \<le> 57)"

function digits10 :: "nat \<Rightarrow> string" where
  "digits10 n =
     (if n < 10 then [''0123456789'' ! n]
      else digits10 (n div 10) @ [''0123456789'' ! (n mod 10)])"
  by pat_completeness auto
termination
  by (relation "measure (\<lambda>n. n)") auto

declare digits10.simps [simp del]

text \<open>\<^verbatim>\<open>strconv.FormatInt(i, 10)\<close>: the decimal digits, a minus sign first for a negative number.\<close>

definition FormatInt :: "int \<Rightarrow> string" where
  "FormatInt i = (if i < 0 then CHR ''-'' # digits10 (nat (- i)) else digits10 (nat i))"

text \<open>
  \<^verbatim>\<open>strconv.ParseUint(s, 10, bitSize)\<close> and \<^verbatim>\<open>strconv.ParseInt(s, 10, bitSize)\<close>. Both
  return a number and an error; the number is 0 on a syntax error and the nearest bound
  on a range error. Only base 10 is modelled, the one base the bridge asks for.
\<close>

datatype NumError = ErrSyntax | ErrRange

fun ParseUint_loop :: "string \<Rightarrow> nat \<Rightarrow> nat \<Rightarrow> nat \<times> NumError option" where
  "ParseUint_loop [] maxVal n = (n, None)"
| "ParseUint_loop (c # cs) maxVal n =
     (if \<not> is_digit c then (0, Some ErrSyntax)
      else if n \<ge> (2 ^ 64 - 1) div 10 + 1 then (maxVal, Some ErrRange)
      else if n * 10 + (of_char c - 48) > maxVal then (maxVal, Some ErrRange)
      else ParseUint_loop cs maxVal (n * 10 + (of_char c - 48)))"

definition ParseUint :: "string \<Rightarrow> nat \<Rightarrow> nat \<times> NumError option" where
  "ParseUint s bitSize =
     (if s = [] then (0, Some ErrSyntax) else ParseUint_loop s (2 ^ bitSize - 1) 0)"

definition ParseInt :: "string \<Rightarrow> nat \<Rightarrow> int \<times> NumError option" where
  "ParseInt s0 bitSize =
     (if s0 = [] then (0, Some ErrSyntax)
      else
        let neg = (hd s0 = CHR ''-'');
            s = (if hd s0 = CHR ''+'' \<or> hd s0 = CHR ''-'' then tl s0 else s0);
            un = fst (ParseUint s bitSize);
            cutoff = (2 :: nat) ^ (bitSize - 1)
        in if snd (ParseUint s bitSize) = Some ErrSyntax then (0, Some ErrSyntax)
           else if \<not> neg \<and> un \<ge> cutoff then (int cutoff - 1, Some ErrRange)
           else if neg \<and> un > cutoff then (- int cutoff, Some ErrRange)
           else (if neg then - int un else int un, None))"

subsection \<open>Package net: parsing an IP literal\<close>

type_synonym IP = "8 word list"

text \<open>
  \<^verbatim>\<open>parseIPv4Fields\<close>: one pass over the characters with the running octet \<open>val\<close>, the
  field index \<open>pos\<close> and the digit count \<open>digLen\<close>. The tests \<^verbatim>\<open>i == 0\<close>,
  \<^verbatim>\<open>i == len(s)-1\<close> and \<^verbatim>\<open>s[i-1] == '.'\<close> of the dot branch are the flag \<open>first\<close>, the
  emptiness of the rest and the flag \<open>prevdot\<close>.
\<close>

fun parseIPv4Fields_loop ::
  "string \<Rightarrow> nat \<Rightarrow> nat \<Rightarrow> nat \<Rightarrow> bool \<Rightarrow> bool \<Rightarrow> IP \<Rightarrow> IP option" where
  "parseIPv4Fields_loop [] val pos digLen first prevdot fields =
     (if pos < 3 then None else Some (fields[3 := of_nat val]))"
| "parseIPv4Fields_loop (c # cs) val pos digLen first prevdot fields =
     (if is_digit c then
        (if digLen = 1 \<and> val = 0 then None
         else if val * 10 + (of_char c - 48) > 255 then None
         else parseIPv4Fields_loop cs (val * 10 + (of_char c - 48)) pos (digLen + 1)
                False False fields)
      else if c = CHR ''.'' then
        (if first \<or> cs = [] \<or> prevdot then None
         else if pos = 3 then None
         else parseIPv4Fields_loop cs 0 (pos + 1) 0 False True (fields[pos := of_nat val]))
      else None)"

definition parseIPv4Fields :: "string \<Rightarrow> IP option" where
  "parseIPv4Fields s = parseIPv4Fields_loop s 0 0 0 True False [0, 0, 0, 0]"

definition hexval :: "char \<Rightarrow> nat option" where
  "hexval c =
     (if 48 \<le> (of_char c :: nat) \<and> (of_char c :: nat) \<le> 57 then Some (of_char c - 48)
      else if 97 \<le> (of_char c :: nat) \<and> (of_char c :: nat) \<le> 102 then Some (of_char c - 97 + 10)
      else if 65 \<le> (of_char c :: nat) \<and> (of_char c :: nat) \<le> 70 then Some (of_char c - 65 + 10)
      else None)"

text \<open>
  The inner loop of \<^verbatim>\<open>parseIPv6\<close> that reads one group of hexadecimal digits: it returns
  the pair of the number \<open>off\<close> of digits read and their value \<open>acc\<close>, or fails on a
  fifth digit.
\<close>

fun hexrun :: "string \<Rightarrow> nat \<Rightarrow> nat \<Rightarrow> (nat \<times> nat) option" where
  "hexrun [] off acc = Some (off, acc)"
| "hexrun (c # cs) off acc =
     (case hexval c of
        None \<Rightarrow> Some (off, acc)
      | Some d \<Rightarrow>
          (if off > 3 then None
           else if acc * 16 + d > 65535 then None
           else hexrun cs (off + 1) (acc * 16 + d)))"

text \<open>
  The main loop of \<^verbatim>\<open>parseIPv6\<close> (\<^verbatim>\<open>for i < 16\<close>), on the rest \<open>s\<close> of the input, the
  byte index \<open>i\<close>, the position of the ellipsis (Go's \<open>-1\<close> is \<open>None\<close>) and the address
  built so far; \<open>r\<close> is the pair of \<open>off\<close> and \<open>acc\<close> of the group just read. It returns
  the four of them when the loop ends and \<open>None\<close> where Go returns an error.
\<close>

function parseIPv6_loop ::
  "string \<Rightarrow> nat \<Rightarrow> nat option \<Rightarrow> IP \<Rightarrow> (string \<times> nat \<times> nat option \<times> IP) option" where
  "parseIPv6_loop s i ellipsis ip =
     (if \<not> i < 16 then Some (s, i, ellipsis, ip)
      else case hexrun s 0 0 of
        None \<Rightarrow> None
      | Some r \<Rightarrow>
          if fst r = 0 then None
          else if fst r < length s \<and> s ! fst r = CHR ''.'' then
            (if ellipsis = None \<and> i \<noteq> 12 then None
             else if i + 4 > 16 then None
             else case parseIPv4Fields s of
                    None \<Rightarrow> None
                  | Some f \<Rightarrow> Some ([], i + 4, ellipsis, take i ip @ f @ drop (i + 4) ip))
          else if drop (fst r) s = [] then
            Some ([], i + 2, ellipsis,
                  ip[i := of_nat (drop_bit 8 (snd r)), i + 1 := of_nat (snd r)])
          else if hd (drop (fst r) s) \<noteq> CHR '':'' then None
          else if length (drop (fst r) s) = 1 then None
          else if hd (tl (drop (fst r) s)) = CHR '':'' then
            (if ellipsis \<noteq> None then None
             else if tl (tl (drop (fst r) s)) = [] then
               Some ([], i + 2, Some (i + 2),
                     ip[i := of_nat (drop_bit 8 (snd r)), i + 1 := of_nat (snd r)])
             else parseIPv6_loop (tl (tl (drop (fst r) s))) (i + 2) (Some (i + 2))
                    (ip[i := of_nat (drop_bit 8 (snd r)), i + 1 := of_nat (snd r)]))
          else parseIPv6_loop (tl (drop (fst r) s)) (i + 2) ellipsis
                 (ip[i := of_nat (drop_bit 8 (snd r)), i + 1 := of_nat (snd r)]))"
  by pat_completeness auto
termination
  by (relation "measure (\<lambda>(s, i, ellipsis, ip). 16 - i)") auto

declare parseIPv6_loop.simps [simp del]

text \<open>
  Expanding the ellipsis: \<^verbatim>\<open>for j := i - 1; j >= ellipsis; j-- { ip[j+n] = ip[j] }\<close>, then
  \<^verbatim>\<open>clear(ip[ellipsis : ellipsis+n])\<close>.
\<close>

definition expand_ellipsis :: "IP \<Rightarrow> nat \<Rightarrow> nat \<Rightarrow> IP" where
  "expand_ellipsis ip i ellipsis =
     foldl (\<lambda>a j. a[j := 0])
       (foldl (\<lambda>a j. a[j + (16 - i) := a ! j]) ip (rev [ellipsis..<i]))
       [ellipsis..<ellipsis + (16 - i)]"

text \<open>\<^verbatim>\<open>netip.Addr\<close>: four bytes, or sixteen bytes and a zone.\<close>

datatype Addr = Addr4 IP | Addr6 IP string

definition IPv6zero :: IP where
  "IPv6zero = [0, 0, 0, 0, 0, 0, 0, 0, 0, 0, 0, 0, 0, 0, 0, 0]"

definition v4InV6Prefix :: IP where
  "v4InV6Prefix = [0, 0, 0, 0, 0, 0, 0, 0, 0, 0, 0xff, 0xff]"

definition parseIPv6 :: "string \<Rightarrow> Addr option" where
  "parseIPv6 inp =
     (let s = takeWhile (\<lambda>c. c \<noteq> CHR ''%'') inp;
          zone = (if CHR ''%'' \<in> set inp then drop (length s + 1) inp else '''');
          lead = (length s \<ge> 2 \<and> s ! 0 = CHR '':'' \<and> s ! 1 = CHR '':'')
      in if CHR ''%'' \<in> set inp \<and> zone = '''' then None
         else if lead \<and> drop 2 s = [] then Some (Addr6 IPv6zero zone)
         else case parseIPv6_loop (if lead then drop 2 s else s) 0
                     (if lead then Some 0 else None) IPv6zero of
           None \<Rightarrow> None
         | Some (s', i, ellipsis, ip) \<Rightarrow>
             if s' \<noteq> [] then None
             else if i < 16 then
               (case ellipsis of
                  None \<Rightarrow> None
                | Some e \<Rightarrow> Some (Addr6 (expand_ellipsis ip i e) zone))
             else if ellipsis \<noteq> None then None
             else Some (Addr6 ip zone))"

definition parseIPv4 :: "string \<Rightarrow> Addr option" where
  "parseIPv4 s = map_option Addr4 (parseIPv4Fields s)"

text \<open>
  \<^verbatim>\<open>netip.ParseAddr\<close> looks for the first dot, colon or percent sign and hands the whole
  string to the parser that sign selects.
\<close>

fun ParseAddr_scan :: "string \<Rightarrow> string \<Rightarrow> Addr option" where
  "ParseAddr_scan [] s = None"
| "ParseAddr_scan (c # cs) s =
     (if c = CHR ''.'' then parseIPv4 s
      else if c = CHR '':'' then parseIPv6 s
      else if c = CHR ''%'' then None
      else ParseAddr_scan cs s)"

definition ParseAddr :: "string \<Rightarrow> Addr option" where
  "ParseAddr s = ParseAddr_scan s s"

fun Zone :: "Addr \<Rightarrow> string" where
  "Zone (Addr4 ip) = ''''"
| "Zone (Addr6 ip z) = z"

fun As16 :: "Addr \<Rightarrow> IP" where
  "As16 (Addr4 ip) = v4InV6Prefix @ ip"
| "As16 (Addr6 ip z) = ip"

text \<open>\<^verbatim>\<open>net.ParseIP\<close>: the sixteen-byte form of the address, \<open>None\<close> for Go's \<^verbatim>\<open>nil\<close>.\<close>

definition ParseIP :: "string \<Rightarrow> IP option" where
  "ParseIP s =
     (case ParseAddr s of
        None \<Rightarrow> None
      | Some a \<Rightarrow> if Zone a \<noteq> '''' then None else Some (As16 a))"

subsection \<open>Package net: the address classes\<close>

definition To4 :: "IP \<Rightarrow> IP option" where
  "To4 ip =
     (if length ip = 4 then Some ip
      else if length ip = 16 \<and> take 10 ip = take 10 IPv6zero \<and> ip ! 10 = 0xff \<and> ip ! 11 = 0xff
        then Some (drop 12 ip)
      else None)"

definition IPv6loopback :: IP where
  "IPv6loopback = [0, 0, 0, 0, 0, 0, 0, 0, 0, 0, 0, 0, 0, 0, 0, 1]"

definition IsLoopback :: "IP \<Rightarrow> bool" where
  "IsLoopback ip =
     (case To4 ip of
        Some ip4 \<Rightarrow> ip4 ! 0 = 127
      | None \<Rightarrow> ip = IPv6loopback)"

definition IsPrivate :: "IP \<Rightarrow> bool" where
  "IsPrivate ip =
     (case To4 ip of
        Some ip4 \<Rightarrow>
          ip4 ! 0 = 10 \<or> (ip4 ! 0 = 172 \<and> (ip4 ! 1) AND 0xf0 = 16)
          \<or> (ip4 ! 0 = 192 \<and> ip4 ! 1 = 168)
      | None \<Rightarrow> length ip = 16 \<and> (ip ! 0) AND 0xfe = 0xfc)"

definition IsLinkLocalMulticast :: "IP \<Rightarrow> bool" where
  "IsLinkLocalMulticast ip =
     (case To4 ip of
        Some ip4 \<Rightarrow> ip4 ! 0 = 224 \<and> ip4 ! 1 = 0 \<and> ip4 ! 2 = 0
      | None \<Rightarrow> length ip = 16 \<and> ip ! 0 = 0xff \<and> (ip ! 1) AND 0x0f = 0x02)"

definition IsLinkLocalUnicast :: "IP \<Rightarrow> bool" where
  "IsLinkLocalUnicast ip =
     (case To4 ip of
        Some ip4 \<Rightarrow> ip4 ! 0 = 169 \<and> ip4 ! 1 = 254
      | None \<Rightarrow> length ip = 16 \<and> ip ! 0 = 0xfe \<and> (ip ! 1) AND 0xc0 = 0x80)"

text \<open>
  \<^verbatim>\<open>net.JoinHostPort\<close>: a host with a colon in it is taken for an IPv6 literal and put in
  brackets.
\<close>

definition JoinHostPort :: "string \<Rightarrow> string \<Rightarrow> string" where
  "JoinHostPort host port =
     (if CHR '':'' \<in> set host then ''['' @ host @ '']:'' @ port
      else host @ '':'' @ port)"

section \<open>The destination classifier and the forwarding permission\<close>

text \<open>\<^verbatim>\<open>isLocalIP\<close> (main.go, lines 48 to 54).\<close>

definition isLocalIP :: "string \<Rightarrow> bool" where
  "isLocalIP dhost =
     (case ParseIP dhost of
        None \<Rightarrow> False
      | Some ip \<Rightarrow>
          IsLoopback ip \<or> IsLinkLocalMulticast ip \<or> IsLinkLocalUnicast ip \<or> IsPrivate ip)"

text \<open>\<^verbatim>\<open>containsNumber\<close> (main.go, lines 201 to 208).\<close>

fun containsNumber :: "32 word list \<Rightarrow> 32 word \<Rightarrow> bool" where
  "containsNumber [] number = False"
| "containsNumber (v # list) number = (if v = number then True else containsNumber list number)"

text \<open>
  The closure installed as \<^verbatim>\<open>LocalPortForwardingCallback\<close> (main.go, lines 277 to 284);
  \<open>whitelistPorts\<close> is the variable it captures.
\<close>

definition LocalPortForwardingCallback :: "32 word list \<Rightarrow> string \<Rightarrow> 32 word \<Rightarrow> bool" where
  "LocalPortForwardingCallback whitelistPorts dhost dport =
     (if \<not> isLocalIP dhost then True
      else if containsNumber whitelistPorts dport then True
      else False)"

section \<open>The external store\<close>

text \<open>
  The bridge keeps its records in a Redis server that it reaches through a client
  \<open>rdb\<close>. The server is not part of the repository. It is modelled by the four commands
  the bridge sends, with Redis' behaviour for each: a set per key, a hash of string fields
  per key, \<^verbatim>\<open>HINCRBY\<close> creating a missing field at 0 and refusing a field that does not hold
  a 64-bit integer in canonical decimal form. \<open>failing\<close> says which commands come back
  with an error and no effect (an unreachable server, a timeout), and \<open>issued\<close> records
  every command sent, in order.
\<close>

datatype cmd =
    SISMEMBER string string
  | HGET string string
  | HINCRBY string string int
  | DEL string

record redis =
  sets :: "string \<Rightarrow> string set"
  hashes :: "string \<Rightarrow> string \<Rightarrow> string option"
  failing :: "cmd \<Rightarrow> bool"
  issued :: "cmd list"

fun dec_nat :: "string \<Rightarrow> nat \<Rightarrow> nat option" where
  "dec_nat [] n = Some n"
| "dec_nat (c # cs) n =
     (if is_digit c then dec_nat cs (n * 10 + (of_char c - 48)) else None)"

definition DecimalValue :: "string \<Rightarrow> int option" where
  "DecimalValue s =
     (if s = [] then None
      else if hd s = CHR ''-'' then
        (if tl s = [] then None else map_option (\<lambda>n. - int n) (dec_nat (tl s) 0))
      else map_option int (dec_nat s 0))"

definition redis_int :: "string \<Rightarrow> int option" where
  "redis_int s =
     (case DecimalValue s of
        None \<Rightarrow> None
      | Some v \<Rightarrow> if FormatInt v = s \<and> - (2 ^ 63) \<le> v \<and> v < 2 ^ 63 then Some v else None)"

text \<open>The integer a counter field stands for: a missing field counts as 0.\<close>

definition counter :: "string option \<Rightarrow> int option" where
  "counter f = (case f of None \<Rightarrow> Some 0 | Some s \<Rightarrow> redis_int s)"

text \<open>A reply is the error text (\<open>Inl\<close>) or the result (\<open>Inr\<close>).\<close>

definition sent :: "redis \<Rightarrow> cmd \<Rightarrow> redis" where
  "sent rdb c = rdb\<lparr>issued := issued rdb @ [c]\<rparr>"

definition SIsMember :: "redis \<Rightarrow> string \<Rightarrow> string \<Rightarrow> (string + bool) \<times> redis" where
  "SIsMember rdb key member =
     (if failing rdb (SISMEMBER key member) then Inl ''store error''
      else Inr (member \<in> sets rdb key),
      sent rdb (SISMEMBER key member))"

definition HGet :: "redis \<Rightarrow> string \<Rightarrow> string \<Rightarrow> (string + string) \<times> redis" where
  "HGet rdb key field =
     (if failing rdb (HGET key field) then Inl ''store error''
      else (case hashes rdb key field of None \<Rightarrow> Inl ''redis: nil'' | Some v \<Rightarrow> Inr v),
      sent rdb (HGET key field))"

definition HIncrBy :: "redis \<Rightarrow> string \<Rightarrow> string \<Rightarrow> int \<Rightarrow> (string + int) \<times> redis" where
  "HIncrBy rdb key field incr =
     (if failing rdb (HINCRBY key field incr) then
        (Inl ''store error'', sent rdb (HINCRBY key field incr))
      else case counter (hashes rdb key field) of
        None \<Rightarrow> (Inl ''ERR hash value is not an integer'', sent rdb (HINCRBY key field incr))
      | Some old \<Rightarrow>
          if old + incr < - (2 ^ 63) \<or> 2 ^ 63 \<le> old + incr then
            (Inl ''ERR increment or decrement would overflow'',
             sent rdb (HINCRBY key field incr))
          else
            (Inr (old + incr),
             sent (rdb\<lparr>hashes := (hashes rdb)
                      (key := (hashes rdb key)(field := Some (FormatInt (old + incr))))\<rparr>)
               (HINCRBY key field incr)))"

definition Del :: "redis \<Rightarrow> string \<Rightarrow> redis" where
  "Del rdb key =
     (if failing rdb (DEL key) then sent rdb (DEL key)
      else sent (rdb\<lparr>sets := (sets rdb)(key := {}), hashes := (hashes rdb)(key := Map.empty)\<rparr>)
             (DEL key))"

section \<open>Admission: the public-key handler\<close>

text \<open>
  \<open>ctx\<close> carries the user name the client presented and the channel \<^verbatim>\<open>ctx.Done()\<close> returns
  (\<open>None\<close> for \<^verbatim>\<open>nil\<close>). A goroutine the handler starts is returned as a task: the one it
  starts waits for the session's channel and then takes 1 off the user's connection count.
\<close>

record Context =
  User :: string
  Done :: "nat option"

datatype task = AwaitDoneThenDecrement nat string

text \<open>
  \<^verbatim>\<open>PublicKeyHandler\<close> (main.go, lines 289 to 329). \<open>maxConns\<close> is the captured limit,
  \<open>authorizedKey\<close> the text \<^verbatim>\<open>gossh.MarshalAuthorizedKey(key)\<close> gives for the presented key.
  The handler holds \<^verbatim>\<open>userConnectionCountMutex\<close> from the \<^verbatim>\<open>HGet\<close> to its return. It
  returns its decision, the goroutines it started and the store it leaves.
\<close>

definition PublicKeyHandler ::
  "int \<Rightarrow> Context \<Rightarrow> string \<Rightarrow> redis \<Rightarrow> bool \<times> task list \<times> redis" where
  "PublicKeyHandler maxConns ctx authorizedKey rdb =
     (if length (User ctx) \<noteq> 36 then (False, [], rdb)
      else
        let userId = User ctx;
            userString = Trim (userId @ ''::'' @ authorizedKey) [CHR 0x0A, CHR 0x09, CHR 0x0D];
            result = SIsMember rdb ''ssh-server:users'' userString
        in case fst result of
             Inl err \<Rightarrow> (False, [], snd result)
           | Inr res \<Rightarrow>
               (case Done ctx of
                  None \<Rightarrow> (False, [], snd result)
                | Some doneCh \<Rightarrow>
                    if \<not> res then (False, [], snd result)
                    else
                      let hget_res = HGet (snd result) ''ssh-server:connections'' userId;
                          connCntStr = (case fst hget_res of Inl e \<Rightarrow> [] | Inr v \<Rightarrow> v);
                          parsed = ParseInt connCntStr 32
                      in if snd parsed = None \<and> fst parsed \<ge> maxConns
                         then (False, [], snd hget_res)
                         else
                           let hincr_res =
                                 HIncrBy (snd hget_res) ''ssh-server:connections'' userId 1
                           in case fst hincr_res of
                                Inl err \<Rightarrow> (False, [], snd hincr_res)
                              | Inr n \<Rightarrow>
                                  (True, [AwaitDoneThenDecrement doneCh userId],
                                   snd hincr_res)))"

text \<open>The goroutine of lines 322 to 326, once the session's channel is closed.\<close>

definition run_task :: "task \<Rightarrow> redis \<Rightarrow> redis" where
  "run_task t rdb =
     (case t of AwaitDoneThenDecrement doneCh userId \<Rightarrow>
        snd (HIncrBy rdb ''ssh-server:connections'' userId (- 1)))"

text \<open>The reset of the connection counts when the process starts (line 274).\<close>

definition startup_reset :: "redis \<Rightarrow> redis" where
  "startup_reset rdb = Del rdb ''ssh-server:connections''"

section \<open>Forwarding: the direct-tcpip channel handler\<close>

record localForwardChannelData =
  DestAddr :: string
  DestPort :: "32 word"
  OriginAddr :: string
  OriginPort :: "32 word"

text \<open>
  What the network and the SSH library answer to the handler's calls: the payload
  \<^verbatim>\<open>gossh.Unmarshal\<close> decodes (or its error), the text \<^verbatim>\<open>ipAddr.String()\<close> of the address
  \<^verbatim>\<open>net.ResolveIPAddr\<close> finds for a network and a name (or its error), the error of
  \<^verbatim>\<open>proxy.SOCKS5\<close>, of the dial through the proxy, of the direct dial and of
  \<^verbatim>\<open>newChan.Accept\<close> (\<open>None\<close> is success).
\<close>

record Net =
  Unmarshal :: "string \<Rightarrow> string + localForwardChannelData"
  ResolveIPAddr :: "string \<Rightarrow> string \<Rightarrow> string + string"
  SOCKS5 :: "string \<Rightarrow> string option"
  ProxyDial :: "string \<Rightarrow> string \<Rightarrow> string option"
  DialContext :: "string \<Rightarrow> string option"
  Accept :: "string option"

datatype RejectionReason = Prohibited | ConnectionFailed

datatype direction = ToChannel | ToDestination

text \<open>What the handler does, in order.\<close>

datatype action =
    Reject RejectionReason string
  | DialViaProxy string string
  | DialDirect string
  | AcceptChannel
  | CloseDconn
  | DiscardRequests
  | StartRelay direction

text \<open>Lines 104 to 124: accepting the channel and starting the two relay goroutines.\<close>

definition accept_and_relay :: "Net \<Rightarrow> action list" where
  "accept_and_relay net =
     (case Accept net of
        Some err \<Rightarrow> [AcceptChannel, CloseDconn]
      | None \<Rightarrow> [AcceptChannel, DiscardRequests, StartRelay ToChannel, StartRelay ToDestination])"

text \<open>Lines 64 to 71: the address is looked up as IPv4 first and as IPv6 if that fails.\<close>

definition resolve :: "Net \<Rightarrow> string \<Rightarrow> string + string" where
  "resolve net name =
     (case ResolveIPAddr net ''ip4'' name of
        Inr ipAddr \<Rightarrow> Inr ipAddr
      | Inl err \<Rightarrow> ResolveIPAddr net ''ip6'' name)"

text \<open>
  \<^verbatim>\<open>directTCPIPClosure\<close> (main.go, lines 56 to 126). \<open>SocksProxyAddr\<close> is the global
  variable, \<open>callback\<close> the server's \<^verbatim>\<open>LocalPortForwardingCallback\<close> field (\<open>None\<close> for
  \<^verbatim>\<open>nil\<close>) and \<open>extraData\<close> the payload of the channel-open request. As in the source, the
  variable \<open>dest\<close> holds the resolved address first and the joined host and port after
  line 80, and it is the joined one that line 85 classifies.
\<close>

definition directTCPIPClosure ::
  "Net \<Rightarrow> string \<Rightarrow> (string \<Rightarrow> 32 word \<Rightarrow> bool) option \<Rightarrow> string \<Rightarrow> action list" where
  "directTCPIPClosure net SocksProxyAddr callback extraData =
     (case Unmarshal net extraData of
        Inl err \<Rightarrow> [Reject ConnectionFailed (''error parsing forward data: '' @ err)]
      | Inr d \<Rightarrow>
          (case resolve net (DestAddr d) of
             Inl err \<Rightarrow> [Reject Prohibited (''cannot resolve the said address: '' @ DestAddr d)]
           | Inr dest0 \<Rightarrow>
               (case callback of
                  None \<Rightarrow> [Reject Prohibited ''illegal address'']
                | Some permitted \<Rightarrow>
                    if \<not> permitted dest0 (DestPort d) then [Reject Prohibited ''illegal address'']
                    else
                      let dest = JoinHostPort dest0 (FormatInt (uint (DestPort d)))
                      in if length SocksProxyAddr \<noteq> 0 \<and> \<not> isLocalIP dest then
                           (case SOCKS5 net SocksProxyAddr of
                              Some err \<Rightarrow> [Reject ConnectionFailed err]
                            | None \<Rightarrow>
                                DialViaProxy SocksProxyAddr dest #
                                (case ProxyDial net SocksProxyAddr dest of
                                   Some err \<Rightarrow> [Reject ConnectionFailed err]
                                 | None \<Rightarrow> accept_and_relay net))
                         else
                           DialDirect dest #
                           (case DialContext net dest of
                              Some err \<Rightarrow> [Reject ConnectionFailed err]
                            | None \<Rightarrow> accept_and_relay net))))"

section \<open>Relaying and metering\<close>

text \<open>
  \<^verbatim>\<open>io.Copy\<close>, as the loop of Go's \<^verbatim>\<open>copyBuffer\<close>. The source is the list of what its
  successive \<^verbatim>\<open>Read\<close> calls return before the last one (a number of bytes, no error) and
  the last one (a number of bytes and an error, \<open>True\<close> for \<^verbatim>\<open>io.EOF\<close>). The destination
  is the list of what its successive \<^verbatim>\<open>Write\<close> calls return (a number and whether there
  is an error); past the end of that list a write takes everything. The result is the
  count \<open>written\<close> and whether \<^verbatim>\<open>io.Copy\<close> reports an error.
\<close>

record Reader =
  reads :: "nat list"
  last_read :: "nat \<times> bool"

type_synonym Writer = "(int \<times> bool) list"

definition write_step :: "nat \<Rightarrow> Writer \<Rightarrow> int \<times> bool" where
  "write_step nr dst =
     (let w = (case dst of [] \<Rightarrow> (int nr, False) | x # xs \<Rightarrow> x)
      in if fst w < 0 \<or> int nr < fst w then (0, True) else w)"

fun copyBuffer :: "nat list \<Rightarrow> nat \<times> bool \<Rightarrow> Writer \<Rightarrow> int \<Rightarrow> int \<times> bool" where
  "copyBuffer [] final dst written =
     (if fst final > 0 then
        (if snd (write_step (fst final) dst) then (written + fst (write_step (fst final) dst), True)
         else if int (fst final) \<noteq> fst (write_step (fst final) dst)
           then (written + fst (write_step (fst final) dst), True)
         else (written + fst (write_step (fst final) dst), \<not> snd final))
      else (written, \<not> snd final))"
| "copyBuffer (nr # src) final dst written =
     (if nr > 0 then
        (if snd (write_step nr dst) then (written + fst (write_step nr dst), True)
         else if int nr \<noteq> fst (write_step nr dst) then (written + fst (write_step nr dst), True)
         else copyBuffer src final (tl dst) (written + fst (write_step nr dst)))
      else copyBuffer src final dst written)"

definition Copy :: "Writer \<Rightarrow> Reader \<Rightarrow> int \<times> bool" where
  "Copy dst src = copyBuffer (reads src) (last_read src) dst 0"

text \<open>
  The two relay goroutines (lines 111 to 124) differ only in the direction of the copy.
  Each one copies, reads the user name and sends one \<^verbatim>\<open>HIncrBy\<close> with the count the copy
  returned; the error of the copy is dropped. The deferred closes leave the store alone.
\<close>

definition relay :: "Context \<Rightarrow> Writer \<Rightarrow> Reader \<Rightarrow> redis \<Rightarrow> redis" where
  "relay ctx dst src rdb =
     (let result = fst (Copy dst src);
          userID = User ctx
      in snd (HIncrBy rdb ''ssh-server:users-usage'' userID result))"

section \<open>Version mimicry\<close>

text \<open>
  The state the loop of lines 336 to 380 works on: its 256-byte buffer, which is made
  once before the loop and never cleared, and the server's version string.
\<close>

record mimicry =
  buf :: string
  Version :: string

definition NUL :: char where
  "NUL = CHR 0x00"

definition initial_mimicry :: "string \<Rightarrow> mimicry" where
  "initial_mimicry defaultVersionString =
     \<lparr>buf = replicate 256 NUL, Version = defaultVersionString\<rparr>"

text \<open>
  \<^verbatim>\<open>conn.Read(buf)\<close>: the connection hands over at most as many bytes as the buffer holds,
  at the front of the buffer, and returns their number.
\<close>

definition Read :: "string \<Rightarrow> string \<Rightarrow> string \<times> nat" where
  "Read b response =
     (take (min (length response) (length b)) response
        @ drop (min (length response) (length b)) b,
      min (length response) (length b))"

text \<open>
  One turn of the loop. \<open>dialed\<close> is \<open>None\<close> when \<^verbatim>\<open>net.Dial\<close> fails, and otherwise the bytes
  the reference server sends and whether the read reports an error.
\<close>

definition mimicry_cycle :: "(string \<times> bool) option \<Rightarrow> mimicry \<Rightarrow> mimicry" where
  "mimicry_cycle dialed st =
     (case dialed of
        None \<Rightarrow> st
      | Some (response, err) \<Rightarrow>
          let b = fst (Read (buf st) response);
              n = snd (Read (buf st) response)
          in if err \<or> n = length b then st\<lparr>buf := b\<rparr>
             else
               let resBuf = takeWhile (\<lambda>c. c \<noteq> NUL) b;
                   result = Trim resBuf [CHR 0x0A, CHR 0x09, CHR 0x0D]
               in if \<not> HasPrefix result ''SSH-2.0-'' then st\<lparr>buf := b\<rparr>
                  else st\<lparr>buf := b, Version := drop 8 result\<rparr>)"

text \<open>The goroutine: nothing when the feature is off, one turn per dial otherwise.\<close>

definition mimicry_loop :: "bool \<Rightarrow> (string \<times> bool) option list \<Rightarrow> mimicry \<Rightarrow> mimicry" where
  "mimicry_loop shouldCopyVersionString dials st =
     (if \<not> shouldCopyVersionString then st else fold mimicry_cycle dials st)"

section \<open>Concurrent admission attempts\<close>

text \<open>
  The server runs one goroutine per connection, and each of them calls the public-key
  handler. A goroutine inside the handler is at one of six places; the local variables
  \<open>doneCh\<close> and \<open>connCntStr\<close> it has set by then go with the place.
\<close>

datatype pc =
    AtStart
  | BeforeLock nat
  | HasLock nat
  | HasCount nat string
  | Leaving bool
  | Returned bool

text \<open>
  The process: the store, the goroutine that holds \<^verbatim>\<open>userConnectionCountMutex\<close> if any,
  the place of every goroutine, and the decrement goroutines started so far. Those wait
  for their session to end; no step below runs them, so the sessions of the attempts
  last as long as the run.
\<close>

record process =
  store :: redis
  mutex :: "nat option"
  pcs :: "pc list"
  spawned :: "task list"

text \<open>
  One step of goroutine \<open>i\<close>, whose context and key are \<open>attempts ! i\<close>; \<open>None\<close> when it has
  returned or waits for the mutex. A step has one action on what the goroutines share:
  the membership test (lines 291 to 304), \<^verbatim>\<open>Lock\<close> (305), the \<^verbatim>\<open>HGet\<close> (307 to 310), the
  limit test with the \<^verbatim>\<open>HIncrBy\<close> (311 to 328), and the deferred \<^verbatim>\<open>Unlock\<close> on return.
\<close>

definition step :: "int \<Rightarrow> (Context \<times> string) list \<Rightarrow> nat \<Rightarrow> process \<Rightarrow> process option" where
  "step maxConns attempts i sys =
     (if \<not> (i < length (pcs sys) \<and> i < length attempts) then None
      else
        let ctx = fst (attempts ! i);
            authorizedKey = snd (attempts ! i);
            userId = User ctx
        in case pcs sys ! i of
             AtStart \<Rightarrow>
               if length (User ctx) \<noteq> 36
               then Some (sys\<lparr>pcs := (pcs sys)[i := Returned False]\<rparr>)
               else
                 let userString =
                       Trim (userId @ ''::'' @ authorizedKey) [CHR 0x0A, CHR 0x09, CHR 0x0D];
                     result = SIsMember (store sys) ''ssh-server:users'' userString
                 in (case fst result of
                       Inl err \<Rightarrow>
                         Some (sys\<lparr>store := snd result, pcs := (pcs sys)[i := Returned False]\<rparr>)
                     | Inr res \<Rightarrow>
                         (case Done ctx of
                            None \<Rightarrow>
                              Some (sys\<lparr>store := snd result,
                                        pcs := (pcs sys)[i := Returned False]\<rparr>)
                          | Some doneCh \<Rightarrow>
                              if \<not> res
                              then Some (sys\<lparr>store := snd result,
                                             pcs := (pcs sys)[i := Returned False]\<rparr>)
                              else Some (sys\<lparr>store := snd result,
                                             pcs := (pcs sys)[i := BeforeLock doneCh]\<rparr>)))
           | BeforeLock doneCh \<Rightarrow>
               (case mutex sys of
                  Some holder \<Rightarrow> None
                | None \<Rightarrow> Some (sys\<lparr>mutex := Some i, pcs := (pcs sys)[i := HasLock doneCh]\<rparr>))
           | HasLock doneCh \<Rightarrow>
               let hget_res = HGet (store sys) ''ssh-server:connections'' userId;
                   connCntStr = (case fst hget_res of Inl e \<Rightarrow> [] | Inr v \<Rightarrow> v)
               in Some (sys\<lparr>store := snd hget_res,
                            pcs := (pcs sys)[i := HasCount doneCh connCntStr]\<rparr>)
           | HasCount doneCh connCntStr \<Rightarrow>
               if snd (ParseInt connCntStr 32) = None \<and> fst (ParseInt connCntStr 32) \<ge> maxConns
               then Some (sys\<lparr>pcs := (pcs sys)[i := Leaving False]\<rparr>)
               else
                 let hincr_res = HIncrBy (store sys) ''ssh-server:connections'' userId 1
                 in (case fst hincr_res of
                       Inl err \<Rightarrow>
                         Some (sys\<lparr>store := snd hincr_res,
                                   pcs := (pcs sys)[i := Leaving False]\<rparr>)
                     | Inr n \<Rightarrow>
                         Some (sys\<lparr>store := snd hincr_res,
                                   pcs := (pcs sys)[i := Leaving True],
                                   spawned := spawned sys @ [AwaitDoneThenDecrement doneCh userId]\<rparr>))
           | Leaving b \<Rightarrow> Some (sys\<lparr>mutex := None, pcs := (pcs sys)[i := Returned b]\<rparr>)
           | Returned b \<Rightarrow> None)"

text \<open>
  A schedule names the goroutine that moves at each step. \<open>run\<close> follows it, and is
  \<open>None\<close> if the schedule names a goroutine that cannot move.
\<close>

fun run :: "int \<Rightarrow> (Context \<times> string) list \<Rightarrow> nat list \<Rightarrow> process \<Rightarrow> process option" where
  "run maxConns attempts [] sys = Some sys"
| "run maxConns attempts (i # schedule) sys =
     (case step maxConns attempts i sys of
        None \<Rightarrow> None
      | Some sys' \<Rightarrow> run maxConns attempts schedule sys')"

text \<open>All the attempts have just entered the handler.\<close>

definition start :: "redis \<Rightarrow> (Context \<times> string) list \<Rightarrow> process" where
  "start rdb attempts =
     \<lparr>store = rdb, mutex = None, pcs = map (\<lambda>a. AtStart) attempts, spawned = []\<rparr>"

text \<open>The goroutines whose decision is to admit: it is taken, or already returned.\<close>

fun admitted :: "pc \<Rightarrow> bool" where
  "admitted (Leaving b) = b"
| "admitted (Returned b) = b"
| "admitted p = False"

section \<open>Auxiliary notions and sample data\<close>

text \<open>Characters the parsers tell apart.\<close>

definition is_hex :: "char \<Rightarrow> bool" where
  "is_hex c = (hexval c \<noteq> None)"

definition plain :: "string \<Rightarrow> bool" where
  "plain a = (\<forall>c\<in>set a. c \<noteq> CHR '':'' \<and> c \<noteq> CHR ''.'' \<and> c \<noteq> CHR ''%'')"

text \<open>
  The canonical text form of a UUID, which the specification names as the format of an
  identity: 36 characters, hyphens at positions 8, 13, 18 and 23, hexadecimal digits
  elsewhere. The source has no such test; the predicate only serves to state what the
  source's length test lets through.
\<close>

definition isUUID :: "string \<Rightarrow> bool" where
  "isUUID s =
     (length s = 36 \<and>
      list_all (\<lambda>(i, c). if i \<in> {8, 13, 18, 23} then c = CHR ''-'' else hexval c \<noteq> None)
        (enumerate 0 s))"

text \<open>
  A network in which the payload decodes to \<open>d\<close>, every name resolves to itself as an
  IPv4 address, and every dial and the accept succeed.
\<close>

definition literal_net :: "localForwardChannelData \<Rightarrow> Net" where
  "literal_net d =
     \<lparr>Unmarshal = (\<lambda>payload. Inr d),
      ResolveIPAddr = (\<lambda>network name. if network = ''ip4'' then Inr name else Inl ''no such host''),
      SOCKS5 = (\<lambda>addr. None),
      ProxyDial = (\<lambda>addr dest. None),
      DialContext = (\<lambda>dest. None),
      Accept = None\<rparr>"

definition request :: "string \<Rightarrow> 32 word \<Rightarrow> localForwardChannelData" where
  "request host port =
     \<lparr>DestAddr = host, DestPort = port, OriginAddr = ''10.0.0.7'', OriginPort = 50000\<rparr>"

text \<open>
  A store that answers every command, in which \<open>userString\<close> is the one authorized
  record and the connection count of \<open>userId\<close> is \<open>stored\<close>.
\<close>

definition authorized_store :: "string \<Rightarrow> string \<Rightarrow> string option \<Rightarrow> redis" where
  "authorized_store userString userId stored =
     \<lparr>sets = (\<lambda>key. if key = ''ssh-server:users'' then {userString} else {}),
      hashes = (\<lambda>key field.
         if key = ''ssh-server:connections'' \<and> field = userId then stored else None),
      failing = (\<lambda>c. False),
      issued = []\<rparr>"

text \<open>A store that answers every command and holds one usage count.\<close>

definition usage_store :: "string \<Rightarrow> string \<Rightarrow> redis" where
  "usage_store userId stored =
     \<lparr>sets = (\<lambda>key. {}),
      hashes = (\<lambda>key field.
         if key = ''ssh-server:users-usage'' \<and> field = userId then Some stored else None),
      failing = (\<lambda>c. False),
      issued = []\<rparr>"

text \<open>
  What holds of the process while goroutines of one identity race through the handler,
  stated piece by piece: who holds the mutex, what a goroutine has read, who has decided.
\<close>

fun holds :: "pc \<Rightarrow> bool" where
  "holds (HasLock d) = True"
| "holds (HasCount d s) = True"
| "holds (Leaving b) = True"
| "holds p = False"

fun decided :: "pc \<Rightarrow> bool" where
  "decided (Leaving b) = True"
| "decided (Returned b) = True"
| "decided p = False"

fun is_HasCount :: "pc \<Rightarrow> bool" where
  "is_HasCount (HasCount d s) = True"
| "is_HasCount p = False"

fun weight :: "pc \<Rightarrow> nat" where
  "weight AtStart = 5"
| "weight (BeforeLock d) = 4"
| "weight (HasLock d) = 3"
| "weight (HasCount d s) = 2"
| "weight (Leaving b) = 1"
| "weight (Returned b) = 0"

definition same_identity :: "int \<Rightarrow> string \<Rightarrow> (Context \<times> string) list \<Rightarrow> bool" where
  "same_identity m u attempts =
     (length u = 36 \<and> - (2 ^ 31) \<le> m \<and> m < 2 ^ 31
      \<and> (\<forall>a\<in>set attempts. User (fst a) = u \<and> Done (fst a) \<noteq> None))"

definition static_ok :: "string \<Rightarrow> (Context \<times> string) list \<Rightarrow> process \<Rightarrow> bool" where
  "static_ok u attempts sys =
     (length (pcs sys) = length attempts
      \<and> (\<forall>c. \<not> failing (store sys) c)
      \<and> (\<forall>a\<in>set attempts.
            Trim (u @ ''::'' @ snd a) [CHR 0x0A, CHR 0x09, CHR 0x0D]
              \<in> sets (store sys) ''ssh-server:users''))"

definition lock_ok :: "pc list \<Rightarrow> nat option \<Rightarrow> bool" where
  "lock_ok ps mu =
     ((\<forall>k<length ps. holds (ps ! k) = (mu = Some k)) \<and> (\<forall>k. mu = Some k \<longrightarrow> k < length ps))"

definition count_ok :: "pc list \<Rightarrow> string option \<Rightarrow> bool" where
  "count_ok ps c = (\<forall>k<length ps. \<forall>d s. ps ! k = HasCount d s \<longrightarrow> c = Some s)"

definition none_decided :: "pc list \<Rightarrow> bool" where
  "none_decided ps = (\<forall>k<length ps. \<not> decided (ps ! k))"

definition one_admitted :: "pc list \<Rightarrow> bool" where
  "one_admitted ps =
     (\<exists>i<length ps. admitted (ps ! i) \<and> (\<forall>j<length ps. j \<noteq> i \<longrightarrow> \<not> admitted (ps ! j)))"

definition cnt :: "string \<Rightarrow> process \<Rightarrow> string option" where
  "cnt u sys = hashes (store sys) ''ssh-server:connections'' u"

definition inv :: "int \<Rightarrow> string \<Rightarrow> (Context \<times> string) list \<Rightarrow> process \<Rightarrow> bool" where
  "inv m u attempts sys =
     (static_ok u attempts sys
      \<and> lock_ok (pcs sys) (mutex sys)
      \<and> count_ok (pcs sys) (cnt u sys)
      \<and> ((cnt u sys = Some (FormatInt (m - 1)) \<and> none_decided (pcs sys))
         \<or> (cnt u sys = Some (FormatInt m) \<and> one_admitted (pcs sys))))"

text \<open>The steps the goroutines still have to take, at most.\<close>

definition total :: "process \<Rightarrow> nat" where
  "total sys = sum_list (map weight (pcs sys))"

text \<open>Three attempts of one identity on three connections.\<close>

definition three_attempts :: "(Context \<times> string) list" where
  "three_attempts =
     [(\<lparr>User = ''11111111-1111-1111-1111-111111111111'', Done = Some 0\<rparr>,
       ''ssh-ed25519 AAAAC3Nz''),
      (\<lparr>User = ''11111111-1111-1111-1111-111111111111'', Done = Some 1\<rparr>,
       ''ssh-ed25519 AAAAC3Nz''),
      (\<lparr>User = ''11111111-1111-1111-1111-111111111111'', Done = Some 2\<rparr>,
       ''ssh-ed25519 AAAAC3Nz'')]"

section \<open>Auxiliary facts\<close>

text \<open>The equations that evaluate the classifier and the store on concrete inputs.\<close>

lemmas classify_eval = isLocalIP_def ParseIP_def ParseAddr_def parseIPv4_def parseIPv4Fields_def
  is_digit_def IsLoopback_def IsPrivate_def IsLinkLocalMulticast_def IsLinkLocalUnicast_def
  To4_def parseIPv6_def parseIPv6_loop.simps hexval_def expand_ellipsis_def IPv6loopback_def
  IPv6zero_def v4InV6Prefix_def Let_def

lemmas store_eval = SIsMember_def HGet_def HIncrBy_def counter_def redis_int_def
  DecimalValue_def FormatInt_def ParseInt_def ParseUint_def Trim_def TrimLeft_def TrimRight_def
  is_digit_def Let_def digits10.simps

lemma containsNumber_set: "containsNumber list number = (number \<in> set list)"
  by (induction list) auto

subsection \<open>Decimal digits\<close>

lemma digit_char:
  assumes "n < 10"
  shows "is_digit (''0123456789'' ! n) \<and> (of_char (''0123456789'' ! n) :: nat) - 48 = n"
proof -
  consider "n = 0" | "n = 1" | "n = 2" | "n = 3" | "n = 4" | "n = 5" | "n = 6" | "n = 7"
    | "n = 8" | "n = 9"
    using assms by atomize_elim arith
  then show ?thesis by cases (simp_all add: is_digit_def)
qed

lemma digits10_digits: "digits10 n \<noteq> [] \<and> (\<forall>c\<in>set (digits10 n). is_digit c)"
proof (induction n rule: digits10.induct)
  case (1 n)
  show ?case
  proof (cases "n < 10")
    case True
    then show ?thesis by (subst (1 2) digits10.simps) (simp add: digit_char)
  next
    case False
    with "1.IH" have "digits10 (n div 10) \<noteq> [] \<and> (\<forall>c\<in>set (digits10 (n div 10)). is_digit c)"
      by simp
    moreover have "is_digit (''0123456789'' ! (n mod 10))" by (simp add: digit_char)
    ultimately show ?thesis using False by (subst (1 2) digits10.simps) auto
  qed
qed

lemma FormatInt_digits:
  "0 \<le> i \<Longrightarrow> FormatInt i \<noteq> [] \<and> (\<forall>c\<in>set (FormatInt i). is_digit c)"
  using digits10_digits [of "nat i"] by (simp add: FormatInt_def)

lemma dec_nat_append:
  "dec_nat (xs @ ys) n = (case dec_nat xs n of None \<Rightarrow> None | Some m \<Rightarrow> dec_nat ys m)"
  by (induction xs arbitrary: n) auto

lemma dec_nat_digits10: "dec_nat (digits10 n) 0 = Some n"
proof (induction n rule: digits10.induct)
  case (1 n)
  show ?case
  proof (cases "n < 10")
    case True
    then show ?thesis by (subst digits10.simps) (simp add: digit_char)
  next
    case False
    with "1.IH" have "dec_nat (digits10 (n div 10)) 0 = Some (n div 10)" by simp
    moreover have "n mod 10 < 10" by simp
    ultimately show ?thesis
      using False by (subst digits10.simps) (simp add: dec_nat_append digit_char)
  qed
qed

lemma not_digit_minus: "\<not> is_digit (CHR ''-'')"
  by (simp add: is_digit_def)

lemma DecimalValue_FormatInt: "DecimalValue (FormatInt v) = Some v"
proof (cases "v < 0")
  case True
  then show ?thesis
    using digits10_digits [of "nat (- v)"]
    by (simp add: DecimalValue_def FormatInt_def dec_nat_digits10)
next
  case False
  have "hd (digits10 (nat v)) \<noteq> CHR ''-''"
    using digits10_digits [of "nat v"] not_digit_minus by (cases "digits10 (nat v)") auto
  with False show ?thesis
    using digits10_digits [of "nat v"]
    by (simp add: DecimalValue_def FormatInt_def dec_nat_digits10)
qed

lemma counter_FormatInt:
  "- (2 ^ 63) \<le> v \<Longrightarrow> v < 2 ^ 63 \<Longrightarrow> counter (Some (FormatInt v)) = Some v"
  by (simp add: counter_def redis_int_def DecimalValue_FormatInt)

subsection \<open>Strings that are not IP literals\<close>

lemma digit_is_hex: "is_digit c \<Longrightarrow> is_hex c"
  by (simp add: is_digit_def hexval_def is_hex_def)

lemma digit_not_sep: "is_digit c \<Longrightarrow> c \<noteq> CHR '':'' \<and> c \<noteq> CHR ''.'' \<and> c \<noteq> CHR ''%''"
  by (auto simp add: is_digit_def)

lemma sep_not_hex: "\<not> is_hex (CHR '':'')"
  by (simp add: hexval_def is_hex_def)

lemma not_digit_open_bracket: "\<not> is_digit (CHR ''['') \<and> \<not> is_hex (CHR ''['')"
  by (simp add: is_digit_def is_hex_def hexval_def)

lemma not_digit_colon: "\<not> is_digit (CHR '':'')"
  by (simp add: is_digit_def)

text \<open>The group reader stops at the first character that is not a hexadecimal digit.\<close>

lemma hexrun_off:
  "hexrun s off acc = Some r \<Longrightarrow> fst r = off + length (takeWhile is_hex s)"
proof (induction s arbitrary: off acc)
  case Nil
  then show ?case by auto
next
  case (Cons c cs)
  show ?case
  proof (cases "hexval c")
    case None
    with Cons.prems show ?thesis by (auto simp add: is_hex_def)
  next
    case (Some d)
    with Cons.prems have "hexrun cs (off + 1) (acc * 16 + d) = Some r"
      by (auto split: if_splits)
    from Cons.IH [OF this] Some show ?thesis by (simp add: is_hex_def)
  qed
qed

text \<open>The IPv4 parser refuses a string with any character that is neither digit nor dot.\<close>

lemma parseIPv4Fields_loop_bad_char:
  "c0 \<in> set s \<Longrightarrow> \<not> is_digit c0 \<Longrightarrow> c0 \<noteq> CHR ''.'' \<Longrightarrow>
   parseIPv4Fields_loop s v p d first prevdot fl = None"
proof (induction s arbitrary: v p d first prevdot fl)
  case Nil
  then show ?case by simp
next
  case (Cons a s)
  show ?case
  proof (cases "a = c0")
    case True
    with Cons.prems show ?thesis by simp
  next
    case False
    with Cons.prems have mem: "c0 \<in> set s" by simp
    then have "parseIPv4Fields_loop s v' p' d' first' prevdot' fl' = None"
      for v' p' d' first' prevdot' fl'
      using Cons.IH Cons.prems by blast
    moreover from mem have "s \<noteq> []" by auto
    ultimately show ?thesis by simp
  qed
qed

lemma parseIPv4_bad_char:
  "c0 \<in> set s \<Longrightarrow> \<not> is_digit c0 \<Longrightarrow> c0 \<noteq> CHR ''.'' \<Longrightarrow> parseIPv4 s = None"
  by (simp add: parseIPv4_def parseIPv4Fields_def parseIPv4Fields_loop_bad_char)

text \<open>Which parser the scan of \<^verbatim>\<open>ParseAddr\<close> selects.\<close>

lemma ParseAddr_scan_cases:
  "ParseAddr_scan r s = None \<or> ParseAddr_scan r s = parseIPv4 s
   \<or> (ParseAddr_scan r s = parseIPv6 s \<and> (\<exists>a b. r = a @ CHR '':'' # b \<and> plain a))"
proof (induction r)
  case Nil
  then show ?case by simp
next
  case (Cons c cs)
  show ?case
  proof (cases "c = CHR ''.'' \<or> c = CHR '':'' \<or> c = CHR ''%''")
    case True
    have "c # cs = [] @ c # cs \<and> plain []" by (simp add: plain_def)
    with True show ?thesis by auto
  next
    case False
    then have eq: "ParseAddr_scan (c # cs) s = ParseAddr_scan cs s" by simp
    have "\<exists>a' b'. c # cs = a' @ CHR '':'' # b' \<and> plain a'"
      if "cs = a @ CHR '':'' # b" "plain a" for a b
    proof -
      from that False have "c # cs = (c # a) @ CHR '':'' # b \<and> plain (c # a)"
        by (simp add: plain_def)
      then show ?thesis by blast
    qed
    with Cons.IH eq show ?thesis by auto
  qed
qed

lemma parseIPv6_bad_first:
  assumes "\<not> is_hex c" "c \<noteq> CHR '':''"
  shows "parseIPv6 (c # rest) = None"
proof (cases "c = CHR ''%''")
  case True
  then show ?thesis by (simp add: parseIPv6_def Let_def parseIPv6_loop.simps)
next
  case False
  with assms show ?thesis by (simp add: parseIPv6_def Let_def parseIPv6_loop.simps is_hex_def)
qed

text \<open>
  A string \<open>host:port\<close> whose host has no colon, dot or percent sign and whose port is a
  number is no IPv6 literal: the loop reads at most two groups and no ellipsis.
\<close>

lemma loop_last_group:
  assumes "\<forall>c\<in>set port. is_digit c" "i < 16"
  shows "parseIPv6_loop port i e ip = None
       \<or> (\<exists>ip'. parseIPv6_loop port i e ip = Some ([], i + 2, e, ip'))"
proof (cases "hexrun port 0 0")
  case None
  with assms(2) have "parseIPv6_loop port i e ip = None"
    by (subst parseIPv6_loop.simps) simp
  then show ?thesis by simp
next
  case (Some r)
  from assms(1) have "takeWhile is_hex port = port"
    by (simp add: digit_is_hex)
  with hexrun_off [OF Some] have k: "fst r = length port" by simp
  have "parseIPv6_loop port i e ip =
     (if port = [] then None
      else Some ([], i + 2, e, ip[i := of_nat (drop_bit 8 (snd r)), i + 1 := of_nat (snd r)]))"
    using assms(2) Some k by (subst parseIPv6_loop.simps) simp
  then show ?thesis by auto
qed

lemma loop_host_port:
  assumes host: "plain host" and port: "port \<noteq> []" "\<forall>c\<in>set port. is_digit c"
  shows "parseIPv6_loop (host @ CHR '':'' # port) 0 None ip = None
       \<or> (\<exists>i ip'. i < 16 \<and>
             parseIPv6_loop (host @ CHR '':'' # port) 0 None ip = Some ([], i, None, ip'))"
proof (cases "hexrun (host @ CHR '':'' # port) 0 0")
  case None
  then have "parseIPv6_loop (host @ CHR '':'' # port) 0 None ip = None"
    by (subst parseIPv6_loop.simps) simp
  then show ?thesis by simp
next
  case (Some r)
  let ?s = "host @ CHR '':'' # port"
  from hexrun_off [OF Some] have k: "fst r = length (takeWhile is_hex ?s)" by simp
  have dr: "drop (fst r) ?s = dropWhile is_hex ?s"
    unfolding k by (simp only: dropWhile_eq_drop)
  show ?thesis
  proof (cases "\<forall>c\<in>set host. is_hex c")
    case True
    then have tw: "takeWhile is_hex ?s = host"
      by (simp add: sep_not_hex)
    with k have kh: "fst r = length host" by simp
    have hp: "hd port \<noteq> CHR '':''"
      using port digit_not_sep [of "hd port"] by (cases port) auto
    have "parseIPv6_loop ?s 0 None ip =
       (if host = [] then None
        else parseIPv6_loop port (Suc (Suc 0)) None
               (ip[0 := of_nat (drop_bit 8 (snd r)), Suc 0 := of_nat (snd r)]))"
      using Some kh port(1) hp
      by (subst parseIPv6_loop.simps) (auto simp add: nth_append)
    then have unfolded: "parseIPv6_loop ?s 0 None ip = None \<or>
        parseIPv6_loop ?s 0 None ip = parseIPv6_loop port (Suc (Suc 0)) None
               (ip[0 := of_nat (drop_bit 8 (snd r)), Suc 0 := of_nat (snd r)])"
      by (simp split: if_splits)
    have small: "Suc (Suc 0) < (16 :: nat)" "Suc (Suc 0) + 2 < (16 :: nat)" by simp_all
    from unfolded loop_last_group [OF port(2) small(1), of None
          "ip[0 := of_nat (drop_bit 8 (snd r)), Suc 0 := of_nat (snd r)]"] small(2)
    show ?thesis by metis
  next
    case False
    then have "dropWhile is_hex host \<noteq> []" by simp
    then obtain c rest where dw: "dropWhile is_hex host = c # rest"
      by (cases "dropWhile is_hex host") auto
    then have c: "\<not> is_hex c" "c \<in> set host"
      using hd_dropWhile [of is_hex host] set_dropWhileD [of c is_hex host] by auto
    have dws: "dropWhile is_hex ?s = c # rest @ CHR '':'' # port"
      using dropWhile_append1 [of c host is_hex "CHR '':'' # port"] c dw by simp
    from c(2) host have cs: "c \<noteq> CHR '':''" "c \<noteq> CHR ''.''" by (auto simp add: plain_def)
    have nth: "fst r < length ?s \<Longrightarrow> ?s ! fst r = c"
      using dr dws hd_drop_conv_nth [of "fst r" ?s] by simp
    have "parseIPv6_loop ?s 0 None ip = None"
      using Some dr dws cs nth
      by (subst parseIPv6_loop.simps) auto
    then show ?thesis by simp
  qed
qed

lemma parseIPv6_host_port:
  assumes host: "plain host" and port: "port \<noteq> []" "\<forall>c\<in>set port. is_digit c"
  shows "parseIPv6 (host @ CHR '':'' # port) = None"
proof -
  let ?s = "host @ CHR '':'' # port"
  have nopct: "CHR ''%'' \<notin> set ?s"
    using host port(2) digit_not_sep by (auto simp add: plain_def)
  then have tw: "takeWhile (\<lambda>c. c \<noteq> CHR ''%'') ?s = ?s"
    by (auto simp add: takeWhile_eq_all_conv)
  have hp: "hd port \<noteq> CHR '':''"
    using port digit_not_sep [of "hd port"] by (cases port) auto
  have lead: "\<not> (length ?s \<ge> 2 \<and> ?s ! 0 = CHR '':'' \<and> ?s ! 1 = CHR '':'')"
  proof (cases host)
    case Nil
    with hp port(1) show ?thesis by (cases port) auto
  next
    case (Cons h hs)
    with host show ?thesis by (auto simp add: plain_def)
  qed
  from loop_host_port [OF assms, of IPv6zero]
  show ?thesis
    unfolding parseIPv6_def Let_def tw using nopct lead
    by auto
qed

lemma ParseIP_bracket: "ParseIP (CHR ''['' # rest) = None"
proof -
  have "parseIPv4 (CHR ''['' # rest) = None"
    using parseIPv4_bad_char [of "CHR ''[''" "CHR ''['' # rest"] not_digit_open_bracket by simp
  moreover have "parseIPv6 (CHR ''['' # rest) = None"
    using parseIPv6_bad_first [of "CHR ''[''" rest] not_digit_open_bracket by simp
  ultimately have "ParseAddr (CHR ''['' # rest) = None"
    using ParseAddr_scan_cases [of "CHR ''['' # rest" "CHR ''['' # rest"]
    unfolding ParseAddr_def by metis
  then show ?thesis by (simp add: ParseIP_def)
qed

lemma ParseIP_host_port:
  assumes "CHR '':'' \<notin> set host" "port \<noteq> []" "\<forall>c\<in>set port. is_digit c"
  shows "ParseIP (host @ CHR '':'' # port) = None"
proof -
  let ?s = "host @ CHR '':'' # port"
  have v4: "parseIPv4 ?s = None"
    using parseIPv4_bad_char [of "CHR '':''" ?s] not_digit_colon by simp
  have v6: "parseIPv6 ?s = None" if "?s = a @ CHR '':'' # b" "plain a" for a b
  proof -
    from assms(3) have "CHR '':'' \<notin> set port" using not_digit_colon by auto
    with that(1) assms(1) have "a = host"
      using append_Cons_eq_iff [of "CHR '':''" host port a b] by simp
    with that(2) assms show ?thesis by (simp add: parseIPv6_host_port)
  qed
  from ParseAddr_scan_cases [of ?s ?s] v4 v6 have "ParseAddr ?s = None"
    unfolding ParseAddr_def by metis
  then show ?thesis by (simp add: ParseIP_def)
qed

text \<open>What \<^verbatim>\<open>net.JoinHostPort\<close> makes of a host and a decimal port is never an IP literal.\<close>

lemma ParseIP_JoinHostPort:
  assumes "port \<noteq> []" "\<forall>c\<in>set port. is_digit c"
  shows "ParseIP (JoinHostPort host port) = None"
proof (cases "CHR '':'' \<in> set host")
  case True
  then show ?thesis by (simp add: JoinHostPort_def ParseIP_bracket)
next
  case False
  with assms show ?thesis by (simp add: JoinHostPort_def ParseIP_host_port)
qed

text \<open>A name without a colon and with a character that is neither digit nor dot.\<close>

lemma ParseIP_name:
  assumes "CHR '':'' \<notin> set s" "c0 \<in> set s" "\<not> is_digit c0" "c0 \<noteq> CHR ''.''"
  shows "ParseIP s = None"
proof -
  have v4: "parseIPv4 s = None"
    using parseIPv4_bad_char [OF assms(2,3,4)] .
  have "\<not> (\<exists>a b. s = a @ CHR '':'' # b)" using assms(1) by auto
  with ParseAddr_scan_cases [of s s] v4 have "ParseAddr s = None"
    unfolding ParseAddr_def by metis
  then show ?thesis by (simp add: ParseIP_def)
qed

lemma joined_destination_not_local:
  "\<not> isLocalIP (JoinHostPort host (FormatInt (uint (p :: 32 word))))"
  using FormatInt_digits [of "uint p"] ParseIP_JoinHostPort [of "FormatInt (uint p)" host]
  by (simp add: isLocalIP_def)

subsection \<open>The store and the copy loop\<close>

lemma sent_simps [simp]:
  "sets (sent rdb c) = sets rdb" "hashes (sent rdb c) = hashes rdb"
  "failing (sent rdb c) = failing rdb" "issued (sent rdb c) = issued rdb @ [c]"
  by (simp_all add: sent_def)

lemma write_step_nonneg: "0 \<le> fst (write_step nr dst)"
  by (auto simp add: write_step_def Let_def split: list.splits)

lemma copyBuffer_nonneg: "0 \<le> written \<Longrightarrow> 0 \<le> fst (copyBuffer src final dst written)"
proof (induction src arbitrary: dst written)
  case Nil
  then show ?case using write_step_nonneg [of "fst final" dst] by auto
next
  case (Cons nr src)
  from Cons.prems write_step_nonneg [of nr dst]
  have "0 \<le> written + fst (write_step nr dst)" by simp
  with Cons.IH Cons.prems show ?case by auto
qed

lemma Copy_nonneg: "0 \<le> fst (Copy dst src)"
  by (simp add: Copy_def copyBuffer_nonneg)

lemma HIncrBy_monotone:
  assumes "0 \<le> incr" "counter (hashes rdb key f) = Some v"
  shows "\<exists>v'. counter (hashes (snd (HIncrBy rdb key field incr)) key f) = Some v' \<and> v \<le> v'"
proof (cases "f = field")
  case True
  with assms show ?thesis
    by (auto simp add: HIncrBy_def counter_FormatInt)
next
  case False
  with assms show ?thesis
    by (auto simp add: HIncrBy_def split: option.splits)
qed

lemma HIncrBy_other_key:
  "key' \<noteq> key \<Longrightarrow> hashes (snd (HIncrBy rdb key field incr)) key' = hashes rdb key'"
  by (auto simp add: HIncrBy_def split: option.splits)

subsection \<open>A configured proxy takes every dial\<close>

text \<open>
  Line 85 classifies the joined host and port, which is never an IP literal, so the test
  \<^verbatim>\<open>!isLocalIP(dest)\<close> always holds there: with a proxy address configured no permitted
  request is dialed directly, whatever its destination.
\<close>

lemma proxy_configured_never_direct:
  assumes "SocksProxyAddr \<noteq> []"
  shows "DialDirect dest \<notin> set (directTCPIPClosure net SocksProxyAddr callback extraData)"
  using assms joined_destination_not_local
  by (auto simp add: directTCPIPClosure_def Let_def accept_and_relay_def
      split: sum.splits option.splits)

subsection \<open>Parsing what the store formats\<close>

lemma ParseUint_loop_append:
  "ParseUint_loop (xs @ ys) maxVal n =
     (if snd (ParseUint_loop xs maxVal n) = None
      then ParseUint_loop ys maxVal (fst (ParseUint_loop xs maxVal n))
      else ParseUint_loop xs maxVal n)"
  by (induction xs arbitrary: n) auto

lemma ParseUint_loop_digits10:
  assumes "n \<le> maxVal" "maxVal < (2 ^ 64 - 1) div 10 + 1"
  shows "ParseUint_loop (digits10 n) maxVal 0 = (n, None)"
  using assms
proof (induction n rule: digits10.induct)
  case (1 n)
  show ?case
  proof (cases "n < 10")
    case True
    with "1.prems" show ?thesis by (subst digits10.simps) (simp add: digit_char)
  next
    case False
    from "1.prems" have "n div 10 \<le> maxVal" by simp
    with "1.IH" False "1.prems"
    have ih: "ParseUint_loop (digits10 (n div 10)) maxVal 0 = (n div 10, None)" by simp
    have d: "n mod 10 < 10" by simp
    have small: "\<not> (2 ^ 64 - 1) div 10 + 1 \<le> n div 10"
      using "1.prems" by simp
    have recompose: "n div 10 * 10 + n mod 10 = n" by simp
    show ?thesis
      using False ih "1.prems" small recompose
      by (subst digits10.simps) (simp add: ParseUint_loop_append digit_char [OF d])
  qed
qed

lemma not_digit_plus: "\<not> is_digit (CHR ''+'')"
  by (simp add: is_digit_def)

lemma ParseInt_FormatInt:
  assumes "- (2 ^ 31) \<le> v" "v < 2 ^ 31"
  shows "ParseInt (FormatInt v) 32 = (v, None)"
proof (cases "v < 0")
  case True
  let ?n = "nat (- v)"
  have le: "?n \<le> 2 ^ 32 - 1" using assms by simp
  have pu: "ParseUint_loop (digits10 ?n) (2 ^ 32 - 1) 0 = (?n, None)"
    by (rule ParseUint_loop_digits10 [OF le]) simp
  have ne: "digits10 ?n \<noteq> []" using digits10_digits [of ?n] by simp
  have cut: "\<not> 2 ^ 31 < ?n" using assms by simp
  from True pu ne cut show ?thesis
    by (simp add: ParseInt_def ParseUint_def FormatInt_def Let_def)
next
  case False
  let ?n = "nat v"
  have le: "?n \<le> 2 ^ 32 - 1" using assms by simp
  have pu: "ParseUint_loop (digits10 ?n) (2 ^ 32 - 1) 0 = (?n, None)"
    by (rule ParseUint_loop_digits10 [OF le]) simp
  have ne: "digits10 ?n \<noteq> []" using digits10_digits [of ?n] by simp
  have hd: "hd (digits10 ?n) \<noteq> CHR ''-''" "hd (digits10 ?n) \<noteq> CHR ''+''"
    using digits10_digits [of ?n] not_digit_minus not_digit_plus
    by (cases "digits10 ?n"; auto)+
  have cut: "\<not> 2 ^ 31 \<le> ?n" using assms False by simp
  from False pu ne hd cut show ?thesis
    by (simp add: ParseInt_def ParseUint_def FormatInt_def Let_def)
qed

text \<open>One below the least limit does not parse into 32 bits.\<close>

lemma ParseInt_below_range: "snd (ParseInt (FormatInt (- (2 ^ 31) - 1)) 32) \<noteq> None"
  by (simp add: ParseInt_def ParseUint_def FormatInt_def Let_def is_digit_def digits10.simps)

lemma below_limit_passes:
  assumes "- (2 ^ 31) \<le> maxConns" "maxConns < 2 ^ 31"
  shows "\<not> (snd (ParseInt (FormatInt (maxConns - 1)) 32) = None
            \<and> maxConns \<le> fst (ParseInt (FormatInt (maxConns - 1)) 32))"
proof (cases "maxConns = - (2 ^ 31)")
  case True
  then show ?thesis using ParseInt_below_range by simp
next
  case False
  with assms have "ParseInt (FormatInt (maxConns - 1)) 32 = (maxConns - 1, None)"
    by (intro ParseInt_FormatInt) simp_all
  then show ?thesis by simp
qed

subsection \<open>Goroutines racing through the handler\<close>

text \<open>
  How the pieces of the invariant fare when one goroutine changes its place, then the
  invariant through each kind of step, through a whole run, and what it gives when the
  run is over.
\<close>

lemma lock_ok_update:
  assumes "lock_ok ps mu" "holds p' = (mu' = Some i)" "i < length ps"
    "mu' = mu \<or> (mu = None \<and> mu' = Some i) \<or> (mu = Some i \<and> mu' = None)"
  shows "lock_ok (ps[i := p']) mu'"
  unfolding lock_ok_def
proof (intro conjI allI impI)
  fix k assume k: "k < length (ps[i := p'])"
  show "holds (ps[i := p'] ! k) = (mu' = Some k)"
  proof (cases "k = i")
    case True
    with k assms(2) show ?thesis by simp
  next
    case False
    with k assms(1,4) show ?thesis by (auto simp add: lock_ok_def)
  qed
next
  fix k assume "mu' = Some k"
  with assms(1,3,4) show "k < length (ps[i := p'])" by (auto simp add: lock_ok_def)
qed

lemma count_ok_update_other:
  assumes "count_ok ps c" "\<not> is_HasCount p'"
  shows "count_ok (ps[i := p']) c"
  unfolding count_ok_def
proof (intro allI impI)
  fix k d s assume k: "k < length (ps[i := p'])" and h: "ps[i := p'] ! k = HasCount d s"
  show "c = Some s"
  proof (cases "k = i")
    case True
    with k h assms(2) show ?thesis by simp
  next
    case False
    with k h assms(1) show ?thesis by (simp add: count_ok_def)
  qed
qed

lemma count_ok_update_read:
  assumes "count_ok ps c" "c = Some s"
  shows "count_ok (ps[i := HasCount d s]) c"
  unfolding count_ok_def
proof (intro allI impI)
  fix k d' s' assume k: "k < length (ps[i := HasCount d s])"
    and h: "ps[i := HasCount d s] ! k = HasCount d' s'"
  show "c = Some s'"
  proof (cases "k = i")
    case True
    with k h assms(2) show ?thesis by simp
  next
    case False
    with k h assms(1) show ?thesis by (simp add: count_ok_def)
  qed
qed

lemma count_ok_update_holder:
  assumes "lock_ok ps mu" "mu = Some i" "\<not> is_HasCount p'"
  shows "count_ok (ps[i := p']) c'"
  unfolding count_ok_def
proof (intro allI impI)
  fix k d s assume k: "k < length (ps[i := p'])" and h: "ps[i := p'] ! k = HasCount d s"
  show "c' = Some s"
  proof (cases "k = i")
    case True
    with k h assms(3) show ?thesis by simp
  next
    case False
    with k h have "ps ! k = HasCount d s" "k < length ps" by simp_all
    with assms(1) have "mu = Some k" by (auto simp add: lock_ok_def)
    with assms(2) False show ?thesis by simp
  qed
qed

lemma none_decided_update:
  assumes "none_decided ps" "\<not> decided p'"
  shows "none_decided (ps[i := p'])"
  unfolding none_decided_def
proof (intro allI impI)
  fix k assume k: "k < length (ps[i := p'])"
  show "\<not> decided (ps[i := p'] ! k)"
    using k assms by (cases "k = i") (simp_all add: none_decided_def)
qed

lemma decided_if_admitted: "admitted p \<Longrightarrow> decided p"
  by (cases p) simp_all

lemma one_admitted_keep:
  assumes "one_admitted ps" "i < length ps" "admitted p' = admitted (ps ! i)"
  shows "one_admitted (ps[i := p'])"
proof -
  from assms(1) obtain i0 where i0: "i0 < length ps" "admitted (ps ! i0)"
    "\<And>j. j < length ps \<Longrightarrow> j \<noteq> i0 \<Longrightarrow> \<not> admitted (ps ! j)"
    by (auto simp add: one_admitted_def)
  have a: "admitted (ps[i := p'] ! k) = admitted (ps ! k)" if "k < length ps" for k
    using that assms(2,3) by (cases "k = i") simp_all
  show ?thesis
    unfolding one_admitted_def
  proof (intro exI [of _ i0] conjI allI impI)
    show "i0 < length (ps[i := p'])" using i0(1) by simp
    show "admitted (ps[i := p'] ! i0)" using a [OF i0(1)] i0(2) by simp
    fix j assume "j < length (ps[i := p'])" "j \<noteq> i0"
    then show "\<not> admitted (ps[i := p'] ! j)" using a [of j] i0(3) [of j] by simp
  qed
qed

lemma one_admitted_first:
  assumes "none_decided ps" "i < length ps" "admitted p'"
  shows "one_admitted (ps[i := p'])"
  unfolding one_admitted_def
proof (intro exI [of _ i] conjI allI impI)
  show "i < length (ps[i := p'])" using assms(2) by simp
  show "admitted (ps[i := p'] ! i)" using assms(2,3) by simp
  fix j assume j: "j < length (ps[i := p'])" "j \<noteq> i"
  with assms(1) have "\<not> decided (ps ! j)" by (simp add: none_decided_def)
  with j show "\<not> admitted (ps[i := p'] ! j)" using decided_if_admitted by auto
qed

lemma cnt_simps [simp]:
  "cnt u (sys\<lparr>pcs := ps\<rparr>) = cnt u sys"
  "cnt u (sys\<lparr>mutex := mu\<rparr>) = cnt u sys"
  "cnt u (sys\<lparr>spawned := ts\<rparr>) = cnt u sys"
  "cnt u (sys\<lparr>store := sent (store sys) c\<rparr>) = cnt u sys"
  by (simp_all add: cnt_def)

lemma static_sent:
  "static_ok u attempts sys \<Longrightarrow> length ps = length (pcs sys) \<Longrightarrow>
   static_ok u attempts (sys\<lparr>store := sent (store sys) c, pcs := ps\<rparr>)"
  by (simp add: static_ok_def)

lemma static_pcs:
  "static_ok u attempts sys \<Longrightarrow> length ps = length (pcs sys) \<Longrightarrow>
   static_ok u attempts (sys\<lparr>pcs := ps\<rparr>)"
  by (simp add: static_ok_def)

lemma static_mutex_pcs:
  "static_ok u attempts sys \<Longrightarrow> length ps = length (pcs sys) \<Longrightarrow>
   static_ok u attempts (sys\<lparr>mutex := mu, pcs := ps\<rparr>)"
  by (simp add: static_ok_def)

lemma step_AtStart:
  assumes "static_ok u attempts sys" "same_identity m u attempts" "i < length attempts"
    "pcs sys ! i = AtStart"
  shows "\<exists>d. step m attempts i sys =
     Some (sys\<lparr>store := sent (store sys) (SISMEMBER ''ssh-server:users''
                (Trim (u @ ''::'' @ snd (attempts ! i)) [CHR 0x0A, CHR 0x09, CHR 0x0D])),
              pcs := (pcs sys)[i := BeforeLock d]\<rparr>)"
proof -
  from assms(2,3) have a: "User (fst (attempts ! i)) = u" "Done (fst (attempts ! i)) \<noteq> None"
    "length u = 36"
    by (auto simp add: same_identity_def)
  from assms(1,3) have b: "\<not> failing (store sys) c"
    "Trim (u @ ''::'' @ snd (attempts ! i)) [CHR 0x0A, CHR 0x09, CHR 0x0D]
              \<in> sets (store sys) ''ssh-server:users''"
    "i < length (pcs sys)" for c
    by (auto simp add: static_ok_def)
  from a b assms(3,4) show ?thesis
    by (auto simp add: step_def Let_def SIsMember_def)
qed

lemma inv_step_AtStart:
  assumes "inv m u attempts sys" "same_identity m u attempts" "i < length attempts"
    "pcs sys ! i = AtStart" "step m attempts i sys = Some sys'"
  shows "inv m u attempts sys'"
proof -
  from assms(1) have st: "static_ok u attempts sys" and lk: "lock_ok (pcs sys) (mutex sys)"
    and co: "count_ok (pcs sys) (cnt u sys)"
    and ph: "(cnt u sys = Some (FormatInt (m - 1)) \<and> none_decided (pcs sys))
         \<or> (cnt u sys = Some (FormatInt m) \<and> one_admitted (pcs sys))"
    by (simp_all add: inv_def)
  from st assms(3) have il: "i < length (pcs sys)" by (simp add: static_ok_def)
  from step_AtStart [OF st assms(2,3,4)] assms(5) obtain d where
    s: "sys' = sys\<lparr>store := sent (store sys) (SISMEMBER ''ssh-server:users''
                (Trim (u @ ''::'' @ snd (attempts ! i)) [CHR 0x0A, CHR 0x09, CHR 0x0D])),
              pcs := (pcs sys)[i := BeforeLock d]\<rparr>"
    by auto
  from lk il assms(4) have nl: "mutex sys \<noteq> Some i" by (auto simp add: lock_ok_def)
  have 1: "static_ok u attempts sys'" unfolding s using st by (intro static_sent) simp_all
  have 2: "lock_ok (pcs sys') (mutex sys')"
    unfolding s using nl il by (simp add: lock_ok_update [OF lk])
  have 3: "count_ok (pcs sys') (cnt u sys')"
    unfolding s by (simp add: count_ok_update_other [OF co])
  have 4: "(cnt u sys' = Some (FormatInt (m - 1)) \<and> none_decided (pcs sys'))
         \<or> (cnt u sys' = Some (FormatInt m) \<and> one_admitted (pcs sys'))"
    unfolding s using ph il assms(4)
    by (auto simp add: none_decided_update one_admitted_keep)
  from 1 2 3 4 show ?thesis by (simp add: inv_def)
qed

lemma inv_step_BeforeLock:
  assumes "inv m u attempts sys" "i < length attempts"
    "pcs sys ! i = BeforeLock d" "step m attempts i sys = Some sys'"
  shows "inv m u attempts sys'"
proof -
  from assms(1) have st: "static_ok u attempts sys" and lk: "lock_ok (pcs sys) (mutex sys)"
    and co: "count_ok (pcs sys) (cnt u sys)"
    and ph: "(cnt u sys = Some (FormatInt (m - 1)) \<and> none_decided (pcs sys))
         \<or> (cnt u sys = Some (FormatInt m) \<and> one_admitted (pcs sys))"
    by (simp_all add: inv_def)
  from st assms(2) have il: "i < length (pcs sys)" by (simp add: static_ok_def)
  from assms(3,4) il assms(2) have free: "mutex sys = None"
    and s: "sys' = sys\<lparr>mutex := Some i, pcs := (pcs sys)[i := HasLock d]\<rparr>"
    by (auto simp add: step_def Let_def split: option.splits)
  have 1: "static_ok u attempts sys'" unfolding s using st by (intro static_mutex_pcs) simp_all
  have 2: "lock_ok (pcs sys') (mutex sys')"
    unfolding s using free il by (simp add: lock_ok_update [OF lk])
  have 3: "count_ok (pcs sys') (cnt u sys')"
    unfolding s by (simp add: count_ok_update_other [OF co])
  have 4: "(cnt u sys' = Some (FormatInt (m - 1)) \<and> none_decided (pcs sys'))
         \<or> (cnt u sys' = Some (FormatInt m) \<and> one_admitted (pcs sys'))"
    unfolding s using ph il assms(3)
    by (auto simp add: none_decided_update one_admitted_keep)
  from 1 2 3 4 show ?thesis by (simp add: inv_def)
qed

lemma inv_step_HasLock:
  assumes "inv m u attempts sys" "same_identity m u attempts" "i < length attempts"
    "pcs sys ! i = HasLock d" "step m attempts i sys = Some sys'"
  shows "inv m u attempts sys'"
proof -
  from assms(1) have st: "static_ok u attempts sys" and lk: "lock_ok (pcs sys) (mutex sys)"
    and co: "count_ok (pcs sys) (cnt u sys)"
    and ph: "(cnt u sys = Some (FormatInt (m - 1)) \<and> none_decided (pcs sys))
         \<or> (cnt u sys = Some (FormatInt m) \<and> one_admitted (pcs sys))"
    by (simp_all add: inv_def)
  from st assms(3) have il: "i < length (pcs sys)" by (simp add: static_ok_def)
  from assms(2,3) have usr: "User (fst (attempts ! i)) = u" by (auto simp add: same_identity_def)
  from st have nf: "\<not> failing (store sys) c" for c by (simp add: static_ok_def)
  from ph obtain x where x: "cnt u sys = Some x" by auto
  from assms(3,4,5) il usr nf x
  have s: "sys' = sys\<lparr>store := sent (store sys) (HGET ''ssh-server:connections'' u),
                      pcs := (pcs sys)[i := HasCount d x]\<rparr>"
    by (auto simp add: step_def Let_def HGet_def cnt_def)
  from lk il assms(4) have mu: "mutex sys = Some i" by (auto simp add: lock_ok_def)
  have 1: "static_ok u attempts sys'" unfolding s using st by (intro static_sent) simp_all
  have 2: "lock_ok (pcs sys') (mutex sys')"
    unfolding s using mu il by (simp add: lock_ok_update [OF lk])
  have 3: "count_ok (pcs sys') (cnt u sys')"
    unfolding s using count_ok_update_read [OF co x, of i d] by simp
  have 4: "(cnt u sys' = Some (FormatInt (m - 1)) \<and> none_decided (pcs sys'))
         \<or> (cnt u sys' = Some (FormatInt m) \<and> one_admitted (pcs sys'))"
    unfolding s using ph il assms(4)
    by (auto simp add: none_decided_update one_admitted_keep)
  from 1 2 3 4 show ?thesis by (simp add: inv_def)
qed

lemma inv_step_Leaving:
  assumes "inv m u attempts sys" "i < length attempts"
    "pcs sys ! i = Leaving b" "step m attempts i sys = Some sys'"
  shows "inv m u attempts sys'"
proof -
  from assms(1) have st: "static_ok u attempts sys" and lk: "lock_ok (pcs sys) (mutex sys)"
    and co: "count_ok (pcs sys) (cnt u sys)"
    and ph: "(cnt u sys = Some (FormatInt (m - 1)) \<and> none_decided (pcs sys))
         \<or> (cnt u sys = Some (FormatInt m) \<and> one_admitted (pcs sys))"
    by (simp_all add: inv_def)
  from st assms(2) have il: "i < length (pcs sys)" by (simp add: static_ok_def)
  from assms(2,3,4) il
  have s: "sys' = sys\<lparr>mutex := None, pcs := (pcs sys)[i := Returned b]\<rparr>"
    by (auto simp add: step_def Let_def)
  from lk il assms(3) have mu: "mutex sys = Some i" by (auto simp add: lock_ok_def)
  from il assms(3) have dec: "\<not> none_decided (pcs sys)" by (auto simp add: none_decided_def)
  have 1: "static_ok u attempts sys'" unfolding s using st by (intro static_mutex_pcs) simp_all
  have 2: "lock_ok (pcs sys') (mutex sys')"
    unfolding s using mu il by (simp add: lock_ok_update [OF lk])
  have 3: "count_ok (pcs sys') (cnt u sys')"
    unfolding s by (simp add: count_ok_update_other [OF co])
  have 4: "(cnt u sys' = Some (FormatInt (m - 1)) \<and> none_decided (pcs sys'))
         \<or> (cnt u sys' = Some (FormatInt m) \<and> one_admitted (pcs sys'))"
    unfolding s using ph il assms(3) dec
    by (auto simp add: one_admitted_keep)
  from 1 2 3 4 show ?thesis by (simp add: inv_def)
qed

lemma inv_step_HasCount:
  assumes "inv m u attempts sys" "same_identity m u attempts" "i < length attempts"
    "pcs sys ! i = HasCount d s" "step m attempts i sys = Some sys'"
  shows "inv m u attempts sys'"
proof -
  from assms(1) have st: "static_ok u attempts sys" and lk: "lock_ok (pcs sys) (mutex sys)"
    and co: "count_ok (pcs sys) (cnt u sys)"
    and ph: "(cnt u sys = Some (FormatInt (m - 1)) \<and> none_decided (pcs sys))
         \<or> (cnt u sys = Some (FormatInt m) \<and> one_admitted (pcs sys))"
    by (simp_all add: inv_def)
  from st assms(3) have il: "i < length (pcs sys)" by (simp add: static_ok_def)
  from assms(2,3) have usr: "User (fst (attempts ! i)) = u" by (auto simp add: same_identity_def)
  from assms(2) have rng: "- (2 ^ 31) \<le> m" "m < 2 ^ 31" by (simp_all add: same_identity_def)
  from st have nf: "\<not> failing (store sys) c" for c by (simp add: static_ok_def)
  from co il assms(4) have cs: "cnt u sys = Some s" by (auto simp add: count_ok_def)
  from lk il assms(4) have mu: "mutex sys = Some i" by (auto simp add: lock_ok_def)
  from ph show ?thesis
  proof (elim disjE conjE)
    assume c0: "cnt u sys = Some (FormatInt (m - 1))" and nd: "none_decided (pcs sys)"
    with cs have s0: "s = FormatInt (m - 1)" by simp
    have pass: "\<not> (snd (ParseInt s 32) = None \<and> m \<le> fst (ParseInt s 32))"
      unfolding s0 by (rule below_limit_passes [OF rng])
    have old: "counter (hashes (store sys) ''ssh-server:connections'' u) = Some (m - 1)"
      using c0 rng by (simp add: cnt_def counter_FormatInt)
    define rdb' where "rdb' = snd (HIncrBy (store sys) ''ssh-server:connections'' u 1)"
    have ok: "fst (HIncrBy (store sys) ''ssh-server:connections'' u 1) = Inr m"
      using old nf rng by (simp add: HIncrBy_def)
    have h': "hashes rdb' ''ssh-server:connections'' u = Some (FormatInt m)"
      "failing rdb' = failing (store sys)" "sets rdb' = sets (store sys)"
      unfolding rdb'_def using old nf rng by (simp_all add: HIncrBy_def)
    from assms(3,4,5) il usr pass ok
    have s: "sys' = sys\<lparr>store := rdb', pcs := (pcs sys)[i := Leaving True],
                         spawned := spawned sys @ [AwaitDoneThenDecrement d u]\<rparr>"
      by (simp add: step_def Let_def rdb'_def)
    have 1: "static_ok u attempts sys'" unfolding s using st h' by (simp add: static_ok_def)
    have 2: "lock_ok (pcs sys') (mutex sys')"
      unfolding s using mu il by (simp add: lock_ok_update [OF lk])
    have 3: "count_ok (pcs sys') (cnt u sys')"
      unfolding s using count_ok_update_holder [OF lk mu, of "Leaving True"] by simp
    have 4: "cnt u sys' = Some (FormatInt m) \<and> one_admitted (pcs sys')"
      unfolding s using h' one_admitted_first [OF nd il, of "Leaving True"]
      by (simp add: cnt_def)
    from 1 2 3 4 show ?thesis by (simp add: inv_def)
  next
    assume c1: "cnt u sys = Some (FormatInt m)" and oa: "one_admitted (pcs sys)"
    with cs have s1: "s = FormatInt m" by simp
    have deny: "snd (ParseInt s 32) = None \<and> m \<le> fst (ParseInt s 32)"
      unfolding s1 using ParseInt_FormatInt [OF rng] by simp
    from assms(3,4,5) il deny
    have s: "sys' = sys\<lparr>pcs := (pcs sys)[i := Leaving False]\<rparr>"
      by (simp add: step_def Let_def)
    have 1: "static_ok u attempts sys'" unfolding s using st by (intro static_pcs) simp_all
    have 2: "lock_ok (pcs sys') (mutex sys')"
      unfolding s using mu il by (simp add: lock_ok_update [OF lk])
    have 3: "count_ok (pcs sys') (cnt u sys')"
      unfolding s by (simp add: count_ok_update_other [OF co])
    have 4: "cnt u sys' = Some (FormatInt m) \<and> one_admitted (pcs sys')"
      unfolding s using c1 oa il assms(4) by (simp add: one_admitted_keep)
    from 1 2 3 4 show ?thesis by (simp add: inv_def)
  qed
qed

lemma inv_step:
  assumes "inv m u attempts sys" "same_identity m u attempts"
    "step m attempts i sys = Some sys'"
  shows "inv m u attempts sys'"
proof -
  from assms(3) have i: "i < length attempts"
    by (auto simp add: step_def split: if_splits)
  show ?thesis
  proof (cases "pcs sys ! i")
    case AtStart
    show ?thesis by (rule inv_step_AtStart [OF assms(1,2) i AtStart assms(3)])
  next
    case (BeforeLock d)
    show ?thesis by (rule inv_step_BeforeLock [OF assms(1) i BeforeLock assms(3)])
  next
    case (HasLock d)
    show ?thesis by (rule inv_step_HasLock [OF assms(1,2) i HasLock assms(3)])
  next
    case (HasCount d s)
    show ?thesis by (rule inv_step_HasCount [OF assms(1,2) i HasCount assms(3)])
  next
    case (Leaving b)
    show ?thesis by (rule inv_step_Leaving [OF assms(1) i Leaving assms(3)])
  next
    case (Returned b)
    with assms(3) i show ?thesis by (simp add: step_def Let_def split: if_splits)
  qed
qed

lemma inv_run:
  "inv m u attempts sys \<Longrightarrow> same_identity m u attempts \<Longrightarrow>
   run m attempts schedule sys = Some sys' \<Longrightarrow> inv m u attempts sys'"
proof (induction schedule arbitrary: sys)
  case Nil
  then show ?case by simp
next
  case (Cons i schedule)
  from Cons.prems(3) obtain mid where mid: "step m attempts i sys = Some mid"
    "run m attempts schedule mid = Some sys'"
    by (auto split: option.splits)
  from inv_step [OF Cons.prems(1,2) mid(1)] have "inv m u attempts mid" .
  from Cons.IH [OF this Cons.prems(2) mid(2)] show ?case .
qed

lemma step_pcs:
  assumes "step m attempts i sys = Some sys'"
  shows "i < length (pcs sys) \<and> (\<exists>p'. pcs sys' = (pcs sys)[i := p'] \<and> weight p' < weight (pcs sys ! i))"
proof -
  from assms have i: "i < length (pcs sys)" "i < length attempts"
    by (auto simp add: step_def split: if_splits)
  show ?thesis
  proof (cases "pcs sys ! i")
    case AtStart
    with assms i show ?thesis
      by (auto simp add: step_def Let_def split: if_splits sum.splits option.splits)
  next
    case (BeforeLock d)
    with assms i show ?thesis
      by (auto simp add: step_def Let_def split: option.splits)
  next
    case (HasLock d)
    with assms i show ?thesis by (auto simp add: step_def Let_def)
  next
    case (HasCount d s)
    with assms i show ?thesis
      by (auto simp add: step_def Let_def split: if_splits sum.splits)
  next
    case (Leaving b)
    with assms i show ?thesis by (auto simp add: step_def Let_def)
  next
    case (Returned b)
    with assms i show ?thesis by (simp add: step_def Let_def)
  qed
qed

lemma step_total:
  assumes "step m attempts i sys = Some sys'"
  shows "total sys' < total sys"
proof -
  from step_pcs [OF assms] obtain p' where i: "i < length (pcs sys)"
    and p: "pcs sys' = (pcs sys)[i := p']" "weight p' < weight (pcs sys ! i)"
    by auto
  have "weight (pcs sys ! i) \<le> sum_list (map weight (pcs sys))"
    using i by (intro member_le_sum_list) auto
  with i p show ?thesis
    by (simp add: total_def map_update sum_list_update)
qed

lemma run_total:
  "run m attempts schedule sys = Some sys' \<Longrightarrow> length schedule + total sys' \<le> total sys"
proof (induction schedule arbitrary: sys)
  case Nil
  then show ?case by simp
next
  case (Cons i schedule)
  from Cons.prems obtain mid where mid: "step m attempts i sys = Some mid"
    "run m attempts schedule mid = Some sys'"
    by (auto split: option.splits)
  from Cons.IH [OF mid(2)] step_total [OF mid(1)] show ?case by simp
qed

lemma total_start: "total (start rdb attempts) = 5 * length attempts"
  by (induction attempts) (simp_all add: total_def start_def)

lemma holder_can_step:
  assumes "i < length (pcs sys)" "i < length attempts" "holds (pcs sys ! i)"
  shows "step m attempts i sys \<noteq> None"
  using assms
  by (cases "pcs sys ! i") (auto simp add: step_def Let_def split: sum.splits)

lemma free_can_step:
  assumes "i < length (pcs sys)" "i < length attempts" "mutex sys = None"
    "\<not> holds (pcs sys ! i)" "\<And>b. pcs sys ! i \<noteq> Returned b"
  shows "step m attempts i sys \<noteq> None"
  using assms
  by (cases "pcs sys ! i") (auto simp add: step_def Let_def split: sum.splits option.splits)

lemma inv_progress:
  assumes "inv m u attempts sys" "i < length (pcs sys)" "\<And>b. pcs sys ! i \<noteq> Returned b"
  shows "\<exists>k. step m attempts k sys \<noteq> None"
proof -
  from assms(1) have len: "length (pcs sys) = length attempts"
    and lk: "lock_ok (pcs sys) (mutex sys)"
    by (simp_all add: inv_def static_ok_def)
  show ?thesis
  proof (cases "mutex sys")
    case None
    with lk assms(2) have nh: "\<not> holds (pcs sys ! i)" by (simp add: lock_ok_def)
    from assms(2) len have il: "i < length attempts" by simp
    from free_can_step [OF assms(2) il None nh assms(3)] show ?thesis by blast
  next
    case (Some k)
    with lk have k: "k < length (pcs sys)" "holds (pcs sys ! k)" by (auto simp add: lock_ok_def)
    from k(1) len have kl: "k < length attempts" by simp
    from holder_can_step [OF k(1) kl k(2)] show ?thesis by blast
  qed
qed

lemma inv_at_most_one:
  assumes "inv m u attempts sys" "i < length (pcs sys)" "j < length (pcs sys)"
    "admitted (pcs sys ! i)" "admitted (pcs sys ! j)"
  shows "i = j"
proof -
  from assms(1) have "none_decided (pcs sys) \<or> one_admitted (pcs sys)"
    by (auto simp add: inv_def)
  then show ?thesis
  proof
    assume "none_decided (pcs sys)"
    with assms(2,4) show ?thesis using decided_if_admitted by (auto simp add: none_decided_def)
  next
    assume "one_admitted (pcs sys)"
    then obtain i0 where "\<And>k. k < length (pcs sys) \<Longrightarrow> k \<noteq> i0 \<Longrightarrow> \<not> admitted (pcs sys ! k)"
      by (auto simp add: one_admitted_def)
    from this [of i] this [of j] assms(2-5) show ?thesis by auto
  qed
qed

lemma inv_all_returned:
  assumes "inv m u attempts sys" "attempts \<noteq> []"
    "\<forall>i<length (pcs sys). \<exists>b. pcs sys ! i = Returned b"
  shows "(\<exists>i<length (pcs sys). pcs sys ! i = Returned True
            \<and> (\<forall>j<length (pcs sys). j \<noteq> i \<longrightarrow> pcs sys ! j = Returned False))
         \<and> hashes (store sys) ''ssh-server:connections'' u = Some (FormatInt m)"
proof -
  from assms(1,2) have len: "0 < length (pcs sys)" by (simp add: inv_def static_ok_def)
  with assms(3) obtain b0 where "pcs sys ! 0 = Returned b0" by auto
  with len have "\<not> none_decided (pcs sys)" by (auto simp add: none_decided_def)
  with assms(1) have c: "cnt u sys = Some (FormatInt m)" and oa: "one_admitted (pcs sys)"
    by (auto simp add: inv_def)
  from oa obtain i0 where i0: "i0 < length (pcs sys)" "admitted (pcs sys ! i0)"
    "\<And>j. j < length (pcs sys) \<Longrightarrow> j \<noteq> i0 \<Longrightarrow> \<not> admitted (pcs sys ! j)"
    by (auto simp add: one_admitted_def)
  from i0(1,2) assms(3) have a: "pcs sys ! i0 = Returned True" by auto
  have b: "pcs sys ! j = Returned False" if "j < length (pcs sys)" "j \<noteq> i0" for j
    using i0(3) [OF that] assms(3) that(1) by auto
  from a b i0(1) c show ?thesis by (auto simp add: cnt_def)
qed

text \<open>A goroutine alone runs the handler as the sequential definition has it.\<close>

lemma single_goroutine_is_handler:
  "\<exists>schedule sys b.
     run maxConns [(ctx, authorizedKey)] schedule (start rdb [(ctx, authorizedKey)]) = Some sys
     \<and> pcs sys = [Returned b] \<and> mutex sys = None
     \<and> PublicKeyHandler maxConns ctx authorizedKey rdb = (b, spawned sys, store sys)"
proof -
  let ?r = "SIsMember rdb ''ssh-server:users''
              (Trim (User ctx @ ''::'' @ authorizedKey) [CHR 0x0A, CHR 0x09, CHR 0x0D])"
  consider (short) "length (User ctx) \<noteq> 36"
    | (err) "length (User ctx) = 36" "\<exists>e. fst ?r = Inl e"
    | (refused) "length (User ctx) = 36" "\<exists>res. fst ?r = Inr res \<and> (\<not> res \<or> Done ctx = None)"
    | (inside) d where "length (User ctx) = 36" "fst ?r = Inr True" "Done ctx = Some d"
    by (cases "fst ?r"; cases "Done ctx"; auto)
  then show ?thesis
  proof cases
    case short
    then have "run maxConns [(ctx, authorizedKey)] [0] (start rdb [(ctx, authorizedKey)])
        = Some \<lparr>store = rdb, mutex = None, pcs = [Returned False], spawned = []\<rparr>"
      by (simp add: step_def start_def)
    moreover from short have "PublicKeyHandler maxConns ctx authorizedKey rdb = (False, [], rdb)"
      by (simp add: PublicKeyHandler_def)
    ultimately show ?thesis by (intro exI [of _ "[0]"]) auto
  next
    case err
    then have "run maxConns [(ctx, authorizedKey)] [0] (start rdb [(ctx, authorizedKey)])
        = Some \<lparr>store = snd ?r, mutex = None, pcs = [Returned False], spawned = []\<rparr>"
      by (auto simp add: step_def start_def Let_def)
    moreover from err have "PublicKeyHandler maxConns ctx authorizedKey rdb = (False, [], snd ?r)"
      by (auto simp add: PublicKeyHandler_def Let_def)
    ultimately show ?thesis by (intro exI [of _ "[0]"]) auto
  next
    case refused
    then have "run maxConns [(ctx, authorizedKey)] [0] (start rdb [(ctx, authorizedKey)])
        = Some \<lparr>store = snd ?r, mutex = None, pcs = [Returned False], spawned = []\<rparr>"
      by (auto simp add: step_def start_def Let_def split: option.splits)
    moreover from refused
    have "PublicKeyHandler maxConns ctx authorizedKey rdb = (False, [], snd ?r)"
      by (auto simp add: PublicKeyHandler_def Let_def split: option.splits)
    ultimately show ?thesis by (intro exI [of _ "[0]"]) auto
  next
    case inside
    let ?g = "HGet (snd ?r) ''ssh-server:connections'' (User ctx)"
    let ?s = "case fst ?g of Inl e \<Rightarrow> [] | Inr v \<Rightarrow> v"
    let ?h = "HIncrBy (snd ?g) ''ssh-server:connections'' (User ctx) 1"
    from inside have three:
      "run maxConns [(ctx, authorizedKey)] [0, 0, 0] (start rdb [(ctx, authorizedKey)])
        = Some \<lparr>store = snd ?g, mutex = Some 0, pcs = [HasCount d ?s], spawned = []\<rparr>"
      by (simp add: step_def start_def Let_def)
    show ?thesis
    proof (cases "snd (ParseInt ?s 32) = None \<and> maxConns \<le> fst (ParseInt ?s 32)")
      case True
      with inside have "run maxConns [(ctx, authorizedKey)] [0, 0, 0, 0, 0]
           (start rdb [(ctx, authorizedKey)])
        = Some \<lparr>store = snd ?g, mutex = None, pcs = [Returned False], spawned = []\<rparr>"
        by (simp add: step_def start_def Let_def)
      moreover from True inside
      have "PublicKeyHandler maxConns ctx authorizedKey rdb = (False, [], snd ?g)"
        by (simp add: PublicKeyHandler_def Let_def)
      ultimately show ?thesis by (intro exI [of _ "[0, 0, 0, 0, 0]"]) auto
    next
      case False
      show ?thesis
      proof (cases "fst ?h")
        case (Inl e)
        with False inside have "run maxConns [(ctx, authorizedKey)] [0, 0, 0, 0, 0]
             (start rdb [(ctx, authorizedKey)])
          = Some \<lparr>store = snd ?h, mutex = None, pcs = [Returned False], spawned = []\<rparr>"
          by (auto simp add: step_def start_def Let_def)
        moreover from False Inl inside
        have "PublicKeyHandler maxConns ctx authorizedKey rdb = (False, [], snd ?h)"
          by (auto simp add: PublicKeyHandler_def Let_def)
        ultimately show ?thesis by (intro exI [of _ "[0, 0, 0, 0, 0]"]) auto
      next
        case (Inr n)
        with False inside have "run maxConns [(ctx, authorizedKey)] [0, 0, 0, 0, 0]
             (start rdb [(ctx, authorizedKey)])
          = Some \<lparr>store = snd ?h, mutex = None, pcs = [Returned True],
                   spawned = [AwaitDoneThenDecrement d (User ctx)]\<rparr>"
          by (auto simp add: step_def start_def Let_def)
        moreover from False Inr inside
        have "PublicKeyHandler maxConns ctx authorizedKey rdb
                = (True, [AwaitDoneThenDecrement d (User ctx)], snd ?h)"
          by (auto simp add: PublicKeyHandler_def Let_def)
        ultimately show ?thesis by (intro exI [of _ "[0, 0, 0, 0, 0]"]) auto
      qed
    qed
  qed
qed

section \<open>The claims\<close>

subsection \<open>C1: local destinations and the port whitelist\<close>

text \<open>
  Claim C1 says that a forward whose destination is classified as local is permitted
  whatever the whitelist and the port. The callback does the opposite: it returns
  \<^verbatim>\<open>true\<close> at once for a destination that is \<^emph>\<open>not\<close> local and consults the whitelist
  for a local one. With the whitelist 80, 443 the local destination 127.0.0.1 is refused
  on port 6379.
\<close>

theorem local_destination_refused_counterexample:
  "isLocalIP ''127.0.0.1'' \<and> \<not> LocalPortForwardingCallback [80, 443] ''127.0.0.1'' 6379"
  by (simp add: LocalPortForwardingCallback_def classify_eval)

text \<open>
  C1 as amended: for every forward request whose destination is classified as local, the
  forwarding-permission decision permits the forward exactly when the destination port is
  in the configured whitelist.
\<close>

theorem local_destination_permitted_iff_whitelisted:
  "isLocalIP dhost \<Longrightarrow>
   LocalPortForwardingCallback whitelistPorts dhost dport = (dport \<in> set whitelistPorts)"
  by (simp add: LocalPortForwardingCallback_def containsNumber_set)

text \<open>The private address 192.168.1.10 with the whitelist 80, 443: port 443 passes, port 22 does not.\<close>

theorem local_destination_permitted_iff_whitelisted_witness:
  "isLocalIP ''192.168.1.10''
   \<and> LocalPortForwardingCallback [80, 443] ''192.168.1.10'' 443
   \<and> \<not> LocalPortForwardingCallback [80, 443] ''192.168.1.10'' 22"
proof -
  have h: "isLocalIP ''192.168.1.10''" by (simp add: classify_eval)
  show ?thesis
    using h local_destination_permitted_iff_whitelisted [OF h, of "[80, 443]" 443]
      local_destination_permitted_iff_whitelisted [OF h, of "[80, 443]" 22]
    by simp
qed

subsection \<open>C2: which requests are rejected as an illegal address\<close>

text \<open>
  Claim C2 says that a request to a non-local destination on a port outside the whitelist
  is rejected with "illegal address" before any dial. The handler rejects on the
  callback's answer, and the callback permits every non-local destination: the request
  to 8.8.8.8 port 53, with the whitelist 80, 443 and no proxy, is dialed and relayed.
\<close>

theorem nonlocal_unlisted_port_dialed_counterexample:
  "\<not> isLocalIP ''8.8.8.8'' \<and> \<not> containsNumber [80, 443] 53 \<and>
   directTCPIPClosure (literal_net (request ''8.8.8.8'' 53)) ''''
     (Some (LocalPortForwardingCallback [80, 443])) ''payload''
   = [DialDirect ''8.8.8.8:53'', AcceptChannel, DiscardRequests,
      StartRelay ToChannel, StartRelay ToDestination]"
  by (simp add: directTCPIPClosure_def LocalPortForwardingCallback_def literal_net_def
      request_def resolve_def accept_and_relay_def JoinHostPort_def FormatInt_def
      digits10.simps classify_eval)

text \<open>
  C2 as amended: for every channel-open forward request whose resolved destination is
  classified as local and whose destination port is not in the configured whitelist, the
  channel is rejected with the reason "illegal address" and nothing else is done, so no
  dial, direct or proxied, is attempted; a request whose resolved destination is
  classified as non-local is never rejected as prohibited, whatever its port.
\<close>

theorem local_unlisted_port_rejected_before_dial:
  "Unmarshal net extraData = Inr d \<Longrightarrow> resolve net (DestAddr d) = Inr dest \<Longrightarrow>
   (isLocalIP dest \<and> DestPort d \<notin> set whitelistPorts \<longrightarrow>
      directTCPIPClosure net SocksProxyAddr (Some (LocalPortForwardingCallback whitelistPorts))
        extraData = [Reject Prohibited ''illegal address''])
   \<and> (\<not> isLocalIP dest \<longrightarrow>
      (\<forall>reason. Reject Prohibited reason \<notin>
         set (directTCPIPClosure net SocksProxyAddr
               (Some (LocalPortForwardingCallback whitelistPorts)) extraData)))"
  by (auto simp add: directTCPIPClosure_def LocalPortForwardingCallback_def containsNumber_set
      Let_def accept_and_relay_def split: option.splits)

text \<open>
  The loopback address on port 6379 is turned away; the public address 8.8.8.8 on port
  53 is not. The whitelist is 80, 443 in both cases.
\<close>

theorem local_unlisted_port_rejected_before_dial_witness:
  "isLocalIP ''127.0.0.1'' \<and> (6379 :: 32 word) \<notin> set [80, 443]
   \<and> directTCPIPClosure (literal_net (request ''127.0.0.1'' 6379)) ''''
        (Some (LocalPortForwardingCallback [80, 443])) ''payload''
      = [Reject Prohibited ''illegal address'']
   \<and> \<not> isLocalIP ''8.8.8.8''
   \<and> Reject Prohibited ''illegal address'' \<notin>
        set (directTCPIPClosure (literal_net (request ''8.8.8.8'' 53)) ''''
               (Some (LocalPortForwardingCallback [80, 443])) ''payload'')"
proof -
  have u: "Unmarshal (literal_net (request a p)) ''payload'' = Inr (request a p)" for a p
    by (simp add: literal_net_def)
  have r: "resolve (literal_net (request a p)) (DestAddr (request a p)) = Inr a" for a p
    by (simp add: resolve_def literal_net_def request_def)
  have l: "isLocalIP ''127.0.0.1''" by (simp add: classify_eval)
  have n: "\<not> isLocalIP ''8.8.8.8''" by (simp add: classify_eval)
  have p: "DestPort (request ''127.0.0.1'' 6379) \<notin> set [80, 443]"
    by (simp add: request_def)
  show ?thesis
    using l n p
      local_unlisted_port_rejected_before_dial [OF u r, of "''127.0.0.1''" 6379 "[80, 443]" "''''"]
      local_unlisted_port_rejected_before_dial [OF u r, of "''8.8.8.8''" 53 "[80, 443]" "''''"]
    by simp
qed

subsection \<open>C3: which dials go through the proxy\<close>

text \<open>
  Claim C3 says that a permitted request is dialed through the configured proxy exactly
  when its destination is non-local, and directly otherwise. The handler tests
  \<^verbatim>\<open>!isLocalIP(dest)\<close> after \<open>dest\<close> has become the joined host and port, and a joined
  host and port is never an IP literal (\<open>joined_destination_not_local\<close>), so the test
  always holds. With the proxy 10.9.8.7:1080 configured and port 6379 whitelisted, the
  request to the loopback address 127.0.0.1 port 6379 is permitted and then dialed
  through the proxy, where the claim has a direct dial.
\<close>

theorem local_destination_dialed_through_proxy:
  "isLocalIP ''127.0.0.1'' \<and>
   directTCPIPClosure (literal_net (request ''127.0.0.1'' 6379)) ''10.9.8.7:1080''
     (Some (LocalPortForwardingCallback [6379])) ''payload''
   = [DialViaProxy ''10.9.8.7:1080'' ''127.0.0.1:6379'', AcceptChannel, DiscardRequests,
      StartRelay ToChannel, StartRelay ToDestination]"
  by (simp add: directTCPIPClosure_def LocalPortForwardingCallback_def literal_net_def
      request_def resolve_def accept_and_relay_def JoinHostPort_def FormatInt_def
      digits10.simps classify_eval)

subsection \<open>C4: identities that are turned away before any store call\<close>

text \<open>
  Claim C4 says that every identity that does not match the 36-character UUID format is
  denied without a call to the store. The handler tests the length only (line 291):
  the identity made of 36 letters z is no UUID, yet the handler looks it up, reads its
  count, increments it and admits it when the store holds a record for it.
\<close>

theorem non_uuid_identity_reaches_store_counterexample:
  "\<not> isUUID ''zzzzzzzzzzzzzzzzzzzzzzzzzzzzzzzzzzzz'' \<and>
   fst (PublicKeyHandler 5 \<lparr>User = ''zzzzzzzzzzzzzzzzzzzzzzzzzzzzzzzzzzzz'', Done = Some 0\<rparr>
          ''ssh-ed25519 AAAAC3Nz''
          (authorized_store ''zzzzzzzzzzzzzzzzzzzzzzzzzzzzzzzzzzzz::ssh-ed25519 AAAAC3Nz''
             ''zzzzzzzzzzzzzzzzzzzzzzzzzzzzzzzzzzzz'' None)) \<and>
   issued (snd (snd (PublicKeyHandler 5
          \<lparr>User = ''zzzzzzzzzzzzzzzzzzzzzzzzzzzzzzzzzzzz'', Done = Some 0\<rparr>
          ''ssh-ed25519 AAAAC3Nz''
          (authorized_store ''zzzzzzzzzzzzzzzzzzzzzzzzzzzzzzzzzzzz::ssh-ed25519 AAAAC3Nz''
             ''zzzzzzzzzzzzzzzzzzzzzzzzzzzzzzzzzzzz'' None)))) =
     [SISMEMBER ''ssh-server:users'' ''zzzzzzzzzzzzzzzzzzzzzzzzzzzzzzzzzzzz::ssh-ed25519 AAAAC3Nz'',
      HGET ''ssh-server:connections'' ''zzzzzzzzzzzzzzzzzzzzzzzzzzzzzzzzzzzz'',
      HINCRBY ''ssh-server:connections'' ''zzzzzzzzzzzzzzzzzzzzzzzzzzzzzzzzzzzz'' 1]"
  by (simp add: PublicKeyHandler_def store_eval authorized_store_def isUUID_def hexval_def
      enumerate_eq_zip upt_rec)

text \<open>
  C4 as amended: for every identity string whose length is not 36 bytes, the admission
  decision is deny, and no call to the external store is made for that attempt: the
  handler returns the store as it found it, with no command added to those issued.
\<close>

theorem wrong_length_identity_denied_without_store_call:
  "length (User ctx) \<noteq> 36 \<Longrightarrow>
   PublicKeyHandler maxConns ctx authorizedKey rdb = (False, [], rdb)"
  by (simp add: PublicKeyHandler_def)

text \<open>The five-letter identity alice, although the store holds a record for it.\<close>

theorem wrong_length_identity_denied_without_store_call_witness:
  "length (User \<lparr>User = ''alice'', Done = Some 0\<rparr>) \<noteq> 36 \<and>
   PublicKeyHandler 5 \<lparr>User = ''alice'', Done = Some 0\<rparr> ''ssh-ed25519 AAAAC3Nz''
     (authorized_store ''alice::ssh-ed25519 AAAAC3Nz'' ''alice'' None)
   = (False, [], authorized_store ''alice::ssh-ed25519 AAAAC3Nz'' ''alice'' None)"
  using wrong_length_identity_denied_without_store_call
    [of "\<lparr>User = ''alice'', Done = Some 0\<rparr>" 5 "''ssh-ed25519 AAAAC3Nz''"
      "authorized_store ''alice::ssh-ed25519 AAAAC3Nz'' ''alice'' None"]
  by simp

subsection \<open>C5: an identity at its limit\<close>

text \<open>
  C5: for every admission attempt by an identity whose stored connection count reads back
  (the \<^verbatim>\<open>HGet\<close> answers with the stored text) and parses as an integer greater than or
  equal to the configured maximum, the decision is deny, no hash of the store changes and
  the attempt issues no \<^verbatim>\<open>HIncrBy\<close>. Parsing is the handler's
  \<^verbatim>\<open>strconv.ParseInt(connCntStr, 10, 32)\<close>.
\<close>

theorem quota_reached_denies_without_increment:
  assumes "\<not> failing rdb (HGET ''ssh-server:connections'' (User ctx))"
    and "hashes rdb ''ssh-server:connections'' (User ctx) = Some stored"
    and "ParseInt stored 32 = (connCnt, None)"
    and "maxConns \<le> connCnt"
  shows "\<not> fst (PublicKeyHandler maxConns ctx authorizedKey rdb)
    \<and> hashes (snd (snd (PublicKeyHandler maxConns ctx authorizedKey rdb))) = hashes rdb
    \<and> (\<forall>key field incr.
          HINCRBY key field incr
            \<in> set (issued (snd (snd (PublicKeyHandler maxConns ctx authorizedKey rdb))))
          \<longrightarrow> HINCRBY key field incr \<in> set (issued rdb))"
  using assms
  by (auto simp add: PublicKeyHandler_def SIsMember_def HGet_def Let_def
      split: sum.splits option.splits)

text \<open>An authorized identity with the count 5 stored and the limit 5.\<close>

theorem quota_reached_denies_without_increment_witness:
  "\<not> failing (authorized_store ''11111111-1111-1111-1111-111111111111::ssh-ed25519 AAAAC3Nz''
         ''11111111-1111-1111-1111-111111111111'' (Some ''5''))
       (HGET ''ssh-server:connections'' ''11111111-1111-1111-1111-111111111111'')
   \<and> ParseInt ''5'' 32 = (5, None)
   \<and> \<not> fst (PublicKeyHandler 5
        \<lparr>User = ''11111111-1111-1111-1111-111111111111'', Done = Some 0\<rparr>
        ''ssh-ed25519 AAAAC3Nz''
        (authorized_store ''11111111-1111-1111-1111-111111111111::ssh-ed25519 AAAAC3Nz''
           ''11111111-1111-1111-1111-111111111111'' (Some ''5'')))
   \<and> issued (snd (snd (PublicKeyHandler 5
        \<lparr>User = ''11111111-1111-1111-1111-111111111111'', Done = Some 0\<rparr>
        ''ssh-ed25519 AAAAC3Nz''
        (authorized_store ''11111111-1111-1111-1111-111111111111::ssh-ed25519 AAAAC3Nz''
           ''11111111-1111-1111-1111-111111111111'' (Some ''5'')))))
      = [SISMEMBER ''ssh-server:users''
           ''11111111-1111-1111-1111-111111111111::ssh-ed25519 AAAAC3Nz'',
         HGET ''ssh-server:connections'' ''11111111-1111-1111-1111-111111111111'']"
proof -
  let ?u = "''11111111-1111-1111-1111-111111111111''"
  let ?rdb = "authorized_store ''11111111-1111-1111-1111-111111111111::ssh-ed25519 AAAAC3Nz''
                ?u (Some ''5'')"
  let ?ctx = "\<lparr>User = ?u, Done = Some 0\<rparr>"
  have h1: "\<not> failing ?rdb (HGET ''ssh-server:connections'' (User ?ctx))"
    by (simp add: authorized_store_def)
  have h2: "hashes ?rdb ''ssh-server:connections'' (User ?ctx) = Some ''5''"
    by (simp add: authorized_store_def)
  have h3: "ParseInt ''5'' 32 = (5, None)"
    by (simp add: ParseInt_def ParseUint_def is_digit_def Let_def)
  have h4: "(5 :: int) \<le> 5" by simp
  have run: "issued (snd (snd (PublicKeyHandler 5 ?ctx ''ssh-ed25519 AAAAC3Nz'' ?rdb)))
     = [SISMEMBER ''ssh-server:users''
           ''11111111-1111-1111-1111-111111111111::ssh-ed25519 AAAAC3Nz'',
        HGET ''ssh-server:connections'' ?u]"
    by (simp add: PublicKeyHandler_def store_eval authorized_store_def)
  from quota_reached_denies_without_increment [OF h1 h2 h3 h4, of "''ssh-ed25519 AAAAC3Nz''"]
    h1 h3 run
  show ?thesis by simp
qed

subsection \<open>C6: attempts of one identity at the same time\<close>

text \<open>
  C6: let any number of goroutines, at least one, run the handler at the same time for
  the same 36-byte identity, each with an authorized key and a session channel, against
  a store that answers every command and in which the identity's connection count is the
  limit minus one; let no session end meanwhile. Whatever the order in which the
  goroutines take their steps (a step being the membership test, \<^verbatim>\<open>Lock\<close>, the \<^verbatim>\<open>HGet\<close>,
  the limit test with the \<^verbatim>\<open>HIncrBy\<close>, or the return with its \<^verbatim>\<open>Unlock\<close>), the run takes at
  most five steps per goroutine, at no moment have two goroutines decided to admit, a
  goroutine can move as long as one has not returned, and once all have returned exactly
  one has returned true, the others false, and the count is exactly the limit. The limit
  is any value of the 32 bits it is parsed into at startup.
\<close>

theorem concurrent_attempts_admit_exactly_one:
  assumes "attempts \<noteq> []"
    and "length userId = 36"
    and "- (2 ^ 31) \<le> maxConns" and "maxConns < 2 ^ 31"
    and "\<forall>a\<in>set attempts. User (fst a) = userId \<and> Done (fst a) \<noteq> None
           \<and> Trim (userId @ ''::'' @ snd a) [CHR 0x0A, CHR 0x09, CHR 0x0D]
               \<in> sets rdb ''ssh-server:users''"
    and "\<forall>c. \<not> failing rdb c"
    and "hashes rdb ''ssh-server:connections'' userId = Some (FormatInt (maxConns - 1))"
    and "run maxConns attempts schedule (start rdb attempts) = Some sys"
  shows "length schedule \<le> 5 * length attempts
    \<and> (\<forall>i<length attempts. \<forall>j<length attempts.
          admitted (pcs sys ! i) \<and> admitted (pcs sys ! j) \<longrightarrow> i = j)
    \<and> ((\<exists>i<length attempts. \<forall>b. pcs sys ! i \<noteq> Returned b)
          \<longrightarrow> (\<exists>k. step maxConns attempts k sys \<noteq> None))
    \<and> ((\<forall>i<length attempts. \<exists>b. pcs sys ! i = Returned b) \<longrightarrow>
          (\<exists>i<length attempts. pcs sys ! i = Returned True
              \<and> (\<forall>j<length attempts. j \<noteq> i \<longrightarrow> pcs sys ! j = Returned False))
          \<and> hashes (store sys) ''ssh-server:connections'' userId = Some (FormatInt maxConns)
          \<and> counter (hashes (store sys) ''ssh-server:connections'' userId) = Some maxConns)"
proof -
  have si: "same_identity maxConns userId attempts"
    using assms(2-5) by (simp add: same_identity_def)
  have "inv maxConns userId attempts (start rdb attempts)"
    using assms(5,6,7)
    by (simp add: inv_def static_ok_def lock_ok_def count_ok_def none_decided_def start_def
        cnt_def)
  from inv_run [OF this si assms(8)] have i: "inv maxConns userId attempts sys" .
  then have len: "length (pcs sys) = length attempts" by (simp add: inv_def static_ok_def)
  have 1: "length schedule \<le> 5 * length attempts"
    using run_total [OF assms(8)] by (simp add: total_start)
  have 2: "\<forall>i<length attempts. \<forall>j<length attempts.
          admitted (pcs sys ! i) \<and> admitted (pcs sys ! j) \<longrightarrow> i = j"
    using inv_at_most_one [OF i] len by auto
  have 3: "(\<exists>i<length attempts. \<forall>b. pcs sys ! i \<noteq> Returned b)
          \<longrightarrow> (\<exists>k. step maxConns attempts k sys \<noteq> None)"
    using inv_progress [OF i] len by auto
  have 4: "(\<forall>i<length attempts. \<exists>b. pcs sys ! i = Returned b) \<longrightarrow>
          (\<exists>i<length attempts. pcs sys ! i = Returned True
              \<and> (\<forall>j<length attempts. j \<noteq> i \<longrightarrow> pcs sys ! j = Returned False))
          \<and> hashes (store sys) ''ssh-server:connections'' userId = Some (FormatInt maxConns)
          \<and> counter (hashes (store sys) ''ssh-server:connections'' userId) = Some maxConns"
    using inv_all_returned [OF i assms(1)] len assms(3,4)
    by (auto simp add: counter_FormatInt)
  from 1 2 3 4 show ?thesis by blast
qed

text \<open>
  Three attempts with the limit 2 and the count 1. All three pass the membership test;
  the second takes the mutex, reads 1, increments and returns true; the third and then
  the first take the mutex in turn, read 2 and return false. The count ends at 2.
\<close>

theorem concurrent_attempts_admit_exactly_one_witness:
  "\<exists>sys. run 2 three_attempts [0, 1, 2, 1, 1, 1, 1, 2, 2, 2, 2, 0, 0, 0, 0]
            (start (authorized_store
                      ''11111111-1111-1111-1111-111111111111::ssh-ed25519 AAAAC3Nz''
                      ''11111111-1111-1111-1111-111111111111'' (Some ''1''))
               three_attempts) = Some sys
      \<and> pcs sys = [Returned False, Returned True, Returned False]
      \<and> hashes (store sys) ''ssh-server:connections'' ''11111111-1111-1111-1111-111111111111''
          = Some ''2''
      \<and> counter (hashes (store sys) ''ssh-server:connections''
                   ''11111111-1111-1111-1111-111111111111'') = Some 2
      \<and> spawned sys = [AwaitDoneThenDecrement 1 ''11111111-1111-1111-1111-111111111111'']"
proof -
  let ?u = "''11111111-1111-1111-1111-111111111111''"
  let ?rdb = "authorized_store ''11111111-1111-1111-1111-111111111111::ssh-ed25519 AAAAC3Nz''
                ?u (Some ''1'')"
  let ?schedule = "[0, 1, 2, 1, 1, 1, 1, 2, 2, 2, 2, 0, 0, 0, 0] :: nat list"
  have ev: "map_option (\<lambda>s. (pcs s, hashes (store s) ''ssh-server:connections'' ?u, spawned s))
              (run 2 three_attempts ?schedule (start ?rdb three_attempts))
      = Some ([Returned False, Returned True, Returned False], Some ''2'',
              [AwaitDoneThenDecrement 1 ?u])"
    by (simp add: step_def start_def three_attempts_def authorized_store_def store_eval sent_def)
  then obtain sys where r: "run 2 three_attempts ?schedule (start ?rdb three_attempts) = Some sys"
    and p: "pcs sys = [Returned False, Returned True, Returned False]"
    and h: "hashes (store sys) ''ssh-server:connections'' ?u = Some ''2''"
    and t: "spawned sys = [AwaitDoneThenDecrement 1 ?u]"
    by auto
  have a1: "three_attempts \<noteq> []" by (simp add: three_attempts_def)
  have a2: "length ?u = 36" by simp
  have a3: "- (2 ^ 31) \<le> (2 :: int)" "(2 :: int) < 2 ^ 31" by simp_all
  have a5: "\<forall>a\<in>set three_attempts. User (fst a) = ?u \<and> Done (fst a) \<noteq> None
           \<and> Trim (?u @ ''::'' @ snd a) [CHR 0x0A, CHR 0x09, CHR 0x0D]
               \<in> sets ?rdb ''ssh-server:users''"
    by (simp add: three_attempts_def authorized_store_def Trim_def TrimLeft_def TrimRight_def)
  have a6: "\<forall>c. \<not> failing ?rdb c" by (simp add: authorized_store_def)
  have a7: "hashes ?rdb ''ssh-server:connections'' ?u = Some (FormatInt (2 - 1))"
    by (simp add: authorized_store_def FormatInt_def digits10.simps)
  have all: "\<forall>i<length three_attempts. \<exists>b. pcs sys ! i = Returned b"
    unfolding p by (auto simp add: three_attempts_def less_Suc_eq)
  from concurrent_attempts_admit_exactly_one [OF a1 a2 a3 a5 a6 a7 r] all
  have "counter (hashes (store sys) ''ssh-server:connections'' ?u) = Some 2" by blast
  with r p h t show ?thesis by blast
qed

subsection \<open>C7: a stored count that does not parse\<close>

text \<open>
  C7: for every admission attempt with a well-formed identity (36 bytes), an authorized
  key (the membership test answers yes) and a session channel, in which the stored
  connection count reads back and fails \<^verbatim>\<open>strconv.ParseInt(connCntStr, 10, 32)\<close>, the
  limit test is skipped: the handler issues the increment \<^verbatim>\<open>HIncrBy\<close> by 1 for the
  identity, admits exactly when that increment succeeds, and leaves the store's hashes as
  the increment leaves them.
\<close>

theorem unparseable_quota_fails_open:
  assumes "length (User ctx) = 36"
    and "\<not> failing rdb (SISMEMBER ''ssh-server:users''
             (Trim (User ctx @ ''::'' @ authorizedKey) [CHR 0x0A, CHR 0x09, CHR 0x0D]))"
    and "Trim (User ctx @ ''::'' @ authorizedKey) [CHR 0x0A, CHR 0x09, CHR 0x0D]
           \<in> sets rdb ''ssh-server:users''"
    and "Done ctx = Some doneCh"
    and "\<not> failing rdb (HGET ''ssh-server:connections'' (User ctx))"
    and "hashes rdb ''ssh-server:connections'' (User ctx) = Some stored"
    and "snd (ParseInt stored 32) \<noteq> None"
  shows "HINCRBY ''ssh-server:connections'' (User ctx) 1
           \<in> set (issued (snd (snd (PublicKeyHandler maxConns ctx authorizedKey rdb))))
    \<and> fst (PublicKeyHandler maxConns ctx authorizedKey rdb)
        = (\<exists>n. fst (HIncrBy rdb ''ssh-server:connections'' (User ctx) 1) = Inr n)
    \<and> hashes (snd (snd (PublicKeyHandler maxConns ctx authorizedKey rdb)))
        = hashes (snd (HIncrBy rdb ''ssh-server:connections'' (User ctx) 1))"
  using assms
  by (auto simp add: PublicKeyHandler_def SIsMember_def HGet_def HIncrBy_def Let_def
      split: sum.splits option.splits)

text \<open>
  The stored count 2147483648 is beyond the 32 bits the handler parses into: with the
  limit 5 the attempt is admitted and the count becomes 2147483649.
\<close>

theorem unparseable_quota_fails_open_witness:
  "snd (ParseInt ''2147483648'' 32) = Some ErrRange
   \<and> HINCRBY ''ssh-server:connections'' ''11111111-1111-1111-1111-111111111111'' 1
       \<in> set (issued (snd (snd (PublicKeyHandler 5
           \<lparr>User = ''11111111-1111-1111-1111-111111111111'', Done = Some 0\<rparr>
           (''ssh-ed25519 AAAAC3Nz'' @ [CHR 0x0A])
           (authorized_store ''11111111-1111-1111-1111-111111111111::ssh-ed25519 AAAAC3Nz''
              ''11111111-1111-1111-1111-111111111111'' (Some ''2147483648''))))))
   \<and> fst (PublicKeyHandler 5
           \<lparr>User = ''11111111-1111-1111-1111-111111111111'', Done = Some 0\<rparr>
           (''ssh-ed25519 AAAAC3Nz'' @ [CHR 0x0A])
           (authorized_store ''11111111-1111-1111-1111-111111111111::ssh-ed25519 AAAAC3Nz''
              ''11111111-1111-1111-1111-111111111111'' (Some ''2147483648'')))
   \<and> hashes (snd (snd (PublicKeyHandler 5
           \<lparr>User = ''11111111-1111-1111-1111-111111111111'', Done = Some 0\<rparr>
           (''ssh-ed25519 AAAAC3Nz'' @ [CHR 0x0A])
           (authorized_store ''11111111-1111-1111-1111-111111111111::ssh-ed25519 AAAAC3Nz''
              ''11111111-1111-1111-1111-111111111111'' (Some ''2147483648'')))))
        ''ssh-server:connections'' ''11111111-1111-1111-1111-111111111111''
      = Some ''2147483649''"
proof -
  let ?u = "''11111111-1111-1111-1111-111111111111''"
  let ?k = "''ssh-ed25519 AAAAC3Nz'' @ [CHR 0x0A]"
  let ?rdb = "authorized_store ''11111111-1111-1111-1111-111111111111::ssh-ed25519 AAAAC3Nz''
                ?u (Some ''2147483648'')"
  let ?ctx = "\<lparr>User = ?u, Done = Some 0\<rparr>"
  have t: "Trim (User ?ctx @ ''::'' @ ?k) [CHR 0x0A, CHR 0x09, CHR 0x0D]
             = ''11111111-1111-1111-1111-111111111111::ssh-ed25519 AAAAC3Nz''"
    by (simp add: Trim_def TrimLeft_def TrimRight_def)
  have h1: "length (User ?ctx) = 36" by simp
  have h2: "\<not> failing ?rdb (SISMEMBER ''ssh-server:users''
             (Trim (User ?ctx @ ''::'' @ ?k) [CHR 0x0A, CHR 0x09, CHR 0x0D]))"
    by (simp add: authorized_store_def)
  have h3: "Trim (User ?ctx @ ''::'' @ ?k) [CHR 0x0A, CHR 0x09, CHR 0x0D]
              \<in> sets ?rdb ''ssh-server:users''"
    unfolding t by (simp add: authorized_store_def)
  have h4: "Done ?ctx = Some 0" by simp
  have h5: "\<not> failing ?rdb (HGET ''ssh-server:connections'' (User ?ctx))"
    by (simp add: authorized_store_def)
  have h6: "hashes ?rdb ''ssh-server:connections'' (User ?ctx) = Some ''2147483648''"
    by (simp add: authorized_store_def)
  have p: "snd (ParseInt ''2147483648'' 32) = Some ErrRange"
    by (simp add: ParseInt_def ParseUint_def is_digit_def Let_def)
  then have h7: "snd (ParseInt ''2147483648'' 32) \<noteq> None" by simp
  have incr: "fst (HIncrBy ?rdb ''ssh-server:connections'' (User ?ctx) 1) = Inr 2147483649"
    "hashes (snd (HIncrBy ?rdb ''ssh-server:connections'' (User ?ctx) 1))
       ''ssh-server:connections'' ?u = Some ''2147483649''"
    by (simp_all add: store_eval authorized_store_def)
  from unparseable_quota_fails_open [OF h1 h2 h3 h4 h5 h6 h7, of 5] p incr
  show ?thesis by simp
qed

subsection \<open>C8: the banner the mimicry loop installs\<close>

text \<open>
  Claim C8 says that a reference-server response \<^verbatim>\<open>SSH-2.0-OpenSSH_9.6\r\n\<close> padded with
  trailing nulls to the size of the read buffer makes the banner \<^verbatim>\<open>OpenSSH_9.6\<close>. A
  response of that size fills the 256-byte buffer, and the loop discards a read that
  fills the buffer (line 352): the banner stays what it was.
\<close>

theorem mimicry_full_buffer_counterexample:
  "length (''SSH-2.0-OpenSSH_9.6'' @ [CHR 0x0D, CHR 0x0A] @ replicate 235 NUL) = 256 \<and>
   Version (mimicry_cycle
      (Some (''SSH-2.0-OpenSSH_9.6'' @ [CHR 0x0D, CHR 0x0A] @ replicate 235 NUL, False))
      (initial_mimicry ''OpenSSH_8.9'')) = ''OpenSSH_8.9''"
  by (simp add: mimicry_cycle_def initial_mimicry_def Read_def Let_def)

text \<open>
  C8 as amended: when the loop reads the 21 bytes \<^verbatim>\<open>SSH-2.0-OpenSSH_9.6\r\n\<close> into its
  zero-filled 256-byte buffer, so that the buffer holds the response followed by nulls,
  the banner becomes \<^verbatim>\<open>OpenSSH_9.6\<close>: the text up to the first null is taken, line feeds,
  tabs and carriage returns are trimmed from both ends, and the prefix \<^verbatim>\<open>SSH-2.0-\<close> is
  required and stripped. The banner is left unchanged by a read that fills the buffer, by
  a text that does not start with the prefix after that trimming, and by a failed dial.
\<close>

theorem mimicry_banner_update:
  "Version (mimicry_cycle (Some (''SSH-2.0-OpenSSH_9.6'' @ [CHR 0x0D, CHR 0x0A], False))
              (initial_mimicry defaultVersionString)) = ''OpenSSH_9.6''
   \<and> buf (mimicry_cycle (Some (''SSH-2.0-OpenSSH_9.6'' @ [CHR 0x0D, CHR 0x0A], False))
              (initial_mimicry defaultVersionString))
       = ''SSH-2.0-OpenSSH_9.6'' @ [CHR 0x0D, CHR 0x0A] @ replicate 235 NUL
   \<and> (length (buf st) \<le> length response \<longrightarrow>
        Version (mimicry_cycle (Some (response, err)) st) = Version st)
   \<and> (\<not> HasPrefix (Trim (takeWhile (\<lambda>c. c \<noteq> NUL) (fst (Read (buf st) response)))
                        [CHR 0x0A, CHR 0x09, CHR 0x0D]) ''SSH-2.0-'' \<longrightarrow>
        Version (mimicry_cycle (Some (response, err)) st) = Version st)
   \<and> Version (mimicry_cycle None st) = Version st"
proof (intro conjI impI)
  show "Version (mimicry_cycle (Some (''SSH-2.0-OpenSSH_9.6'' @ [CHR 0x0D, CHR 0x0A], False))
              (initial_mimicry defaultVersionString)) = ''OpenSSH_9.6''"
    by (simp add: mimicry_cycle_def initial_mimicry_def Read_def Let_def NUL_def Trim_def
        TrimLeft_def TrimRight_def HasPrefix_def)
  show "buf (mimicry_cycle (Some (''SSH-2.0-OpenSSH_9.6'' @ [CHR 0x0D, CHR 0x0A], False))
              (initial_mimicry defaultVersionString))
       = ''SSH-2.0-OpenSSH_9.6'' @ [CHR 0x0D, CHR 0x0A] @ replicate 235 NUL"
    by (simp add: mimicry_cycle_def initial_mimicry_def Read_def Let_def NUL_def Trim_def
        TrimLeft_def TrimRight_def HasPrefix_def)
  show "Version (mimicry_cycle (Some (response, err)) st) = Version st"
    if "length (buf st) \<le> length response"
    using that by (simp add: mimicry_cycle_def Let_def Read_def)
  show "Version (mimicry_cycle (Some (response, err)) st) = Version st"
    if "\<not> HasPrefix (Trim (takeWhile (\<lambda>c. c \<noteq> NUL) (fst (Read (buf st) response)))
                        [CHR 0x0A, CHR 0x09, CHR 0x0D]) ''SSH-2.0-''"
    using that by (simp add: mimicry_cycle_def Let_def)
  show "Version (mimicry_cycle None st) = Version st"
    by (simp add: mimicry_cycle_def)
qed

text \<open>
  A response of 300 letters fills the buffer, and the response \<^verbatim>\<open>HTTP/1.1 400\<close> lacks the
  prefix: both leave the banner \<^verbatim>\<open>OpenSSH_8.9\<close> in place.
\<close>

theorem mimicry_banner_update_witness:
  "length (buf (initial_mimicry ''OpenSSH_8.9'')) \<le> length (replicate 300 (CHR ''A''))
   \<and> Version (mimicry_cycle (Some (replicate 300 (CHR ''A''), False))
                (initial_mimicry ''OpenSSH_8.9'')) = ''OpenSSH_8.9''
   \<and> \<not> HasPrefix (Trim (takeWhile (\<lambda>c. c \<noteq> NUL)
                      (fst (Read (buf (initial_mimicry ''OpenSSH_8.9'')) ''HTTP/1.1 400'')))
                    [CHR 0x0A, CHR 0x09, CHR 0x0D]) ''SSH-2.0-''
   \<and> Version (mimicry_cycle (Some (''HTTP/1.1 400'', False))
                (initial_mimicry ''OpenSSH_8.9'')) = ''OpenSSH_8.9''
   \<and> Version (mimicry_cycle (Some (''SSH-2.0-OpenSSH_9.6'' @ [CHR 0x0D, CHR 0x0A], False))
                (initial_mimicry ''OpenSSH_8.9'')) = ''OpenSSH_9.6''"
proof -
  have h1: "length (buf (initial_mimicry ''OpenSSH_8.9'')) \<le> length (replicate 300 (CHR ''A''))"
    by (simp add: initial_mimicry_def)
  have h2: "\<not> HasPrefix (Trim (takeWhile (\<lambda>c. c \<noteq> NUL)
                      (fst (Read (buf (initial_mimicry ''OpenSSH_8.9'')) ''HTTP/1.1 400'')))
                    [CHR 0x0A, CHR 0x09, CHR 0x0D]) ''SSH-2.0-''"
    by (simp add: initial_mimicry_def Read_def NUL_def Trim_def TrimLeft_def TrimRight_def
        HasPrefix_def)
  have v: "Version (initial_mimicry ''OpenSSH_8.9'') = ''OpenSSH_8.9''"
    by (simp add: initial_mimicry_def)
  from mimicry_banner_update
      [of "''OpenSSH_8.9''" "initial_mimicry ''OpenSSH_8.9''" "replicate 300 (CHR ''A'')" False]
    mimicry_banner_update
      [of "''OpenSSH_8.9''" "initial_mimicry ''OpenSSH_8.9''" "''HTTP/1.1 400''" False]
    h1 h2 v
  show ?thesis by simp
qed

subsection \<open>C9: what a relay task records\<close>

text \<open>
  C9: every relay-direction task, once its copy has ended (at the end of the stream or on
  an error), issues exactly one command to the store, the increment of the user's usage
  count by the number of bytes the copy returned, and that number is not negative. No
  usage count goes down: a count that holds an integer before the task holds an integer
  at least as large after it, and the other operations of the bridge on the store (the
  admission handler, the decrement at the end of a session, the reset at startup) leave
  the usage counts as they are. The byte count is an unbounded integer here; Go's
  \<^verbatim>\<open>int64\<close> cannot overflow within a session, which ends after six hours.
\<close>

theorem relay_records_bytes_copied:
  "issued (relay ctx dst src rdb)
     = issued rdb @ [HINCRBY ''ssh-server:users-usage'' (User ctx) (fst (Copy dst src))]
   \<and> 0 \<le> fst (Copy dst src)
   \<and> (\<forall>user v. counter (hashes rdb ''ssh-server:users-usage'' user) = Some v \<longrightarrow>
        (\<exists>v'. counter (hashes (relay ctx dst src rdb) ''ssh-server:users-usage'' user) = Some v'
              \<and> v \<le> v'))
   \<and> hashes (snd (snd (PublicKeyHandler maxConns ctx' authorizedKey rdb)))
         ''ssh-server:users-usage''
       = hashes rdb ''ssh-server:users-usage''
   \<and> hashes (run_task t rdb) ''ssh-server:users-usage'' = hashes rdb ''ssh-server:users-usage''
   \<and> hashes (startup_reset rdb) ''ssh-server:users-usage''
       = hashes rdb ''ssh-server:users-usage''"
proof (intro conjI allI impI)
  show "issued (relay ctx dst src rdb)
     = issued rdb @ [HINCRBY ''ssh-server:users-usage'' (User ctx) (fst (Copy dst src))]"
    by (auto simp add: relay_def HIncrBy_def Let_def split: option.splits)
  show "0 \<le> fst (Copy dst src)" by (rule Copy_nonneg)
  show "\<exists>v'. counter (hashes (relay ctx dst src rdb) ''ssh-server:users-usage'' user) = Some v'
              \<and> v \<le> v'"
    if "counter (hashes rdb ''ssh-server:users-usage'' user) = Some v" for user v
    using HIncrBy_monotone [OF Copy_nonneg that] by (simp add: relay_def Let_def)
  show "hashes (snd (snd (PublicKeyHandler maxConns ctx' authorizedKey rdb)))
          ''ssh-server:users-usage''
       = hashes rdb ''ssh-server:users-usage''"
    by (auto simp add: PublicKeyHandler_def SIsMember_def HGet_def Let_def HIncrBy_other_key
        split: sum.splits option.splits)
  show "hashes (run_task t rdb) ''ssh-server:users-usage''
       = hashes rdb ''ssh-server:users-usage''"
    by (cases t) (simp add: run_task_def HIncrBy_other_key)
  show "hashes (startup_reset rdb) ''ssh-server:users-usage''
       = hashes rdb ''ssh-server:users-usage''"
    by (simp add: startup_reset_def Del_def)
qed

text \<open>
  A copy that moves 100 and then 50 bytes and ends on a read error, for a user whose
  usage count is 1000: the task sends one increment by 150 and the count becomes 1150.
\<close>

theorem relay_records_bytes_copied_witness:
  "Copy [] \<lparr>reads = [100, 50], last_read = (0, False)\<rparr> = (150, True)
   \<and> counter (hashes (usage_store ''11111111-1111-1111-1111-111111111111'' ''1000'')
               ''ssh-server:users-usage'' ''11111111-1111-1111-1111-111111111111'') = Some 1000
   \<and> issued (relay \<lparr>User = ''11111111-1111-1111-1111-111111111111'', Done = Some 0\<rparr> []
               \<lparr>reads = [100, 50], last_read = (0, False)\<rparr>
               (usage_store ''11111111-1111-1111-1111-111111111111'' ''1000''))
      = [HINCRBY ''ssh-server:users-usage'' ''11111111-1111-1111-1111-111111111111'' 150]
   \<and> (\<exists>v'. counter (hashes
                (relay \<lparr>User = ''11111111-1111-1111-1111-111111111111'', Done = Some 0\<rparr> []
                   \<lparr>reads = [100, 50], last_read = (0, False)\<rparr>
                   (usage_store ''11111111-1111-1111-1111-111111111111'' ''1000''))
                ''ssh-server:users-usage'' ''11111111-1111-1111-1111-111111111111'') = Some v'
            \<and> 1000 \<le> v')
   \<and> hashes (relay \<lparr>User = ''11111111-1111-1111-1111-111111111111'', Done = Some 0\<rparr> []
                \<lparr>reads = [100, 50], last_read = (0, False)\<rparr>
                (usage_store ''11111111-1111-1111-1111-111111111111'' ''1000''))
        ''ssh-server:users-usage'' ''11111111-1111-1111-1111-111111111111'' = Some ''1150''"
proof -
  let ?u = "''11111111-1111-1111-1111-111111111111''"
  let ?ctx = "\<lparr>User = ?u, Done = Some 0\<rparr>"
  let ?src = "\<lparr>reads = [100, 50], last_read = (0, False)\<rparr>"
  let ?rdb = "usage_store ?u ''1000''"
  have c: "Copy [] ?src = (150, True)"
    by (simp add: Copy_def write_step_def)
  have h: "counter (hashes ?rdb ''ssh-server:users-usage'' ?u) = Some 1000"
    by (simp add: usage_store_def store_eval)
  have after: "hashes (relay ?ctx [] ?src ?rdb) ''ssh-server:users-usage'' ?u = Some ''1150''"
    by (simp add: relay_def c usage_store_def store_eval)
  have i0: "issued ?rdb = []" by (simp add: usage_store_def)
  note T = relay_records_bytes_copied [of ?ctx "[]" ?src ?rdb 5 ?ctx "''key''"
      "AwaitDoneThenDecrement 0 ?u"]
  from T c i0 have a: "issued (relay ?ctx [] ?src ?rdb)
      = [HINCRBY ''ssh-server:users-usage'' ?u 150]" by simp
  from T h have b: "\<exists>v'. counter (hashes (relay ?ctx [] ?src ?rdb)
      ''ssh-server:users-usage'' ?u) = Some v' \<and> 1000 \<le> v'" by blast
  from a b c h after show ?thesis by simp
qed

subsection \<open>C10: strings that are not IP literals\<close>

text \<open>
  C10: for every input string that is not a valid bare IP address literal, that is, for
  which \<^verbatim>\<open>net.ParseIP\<close> returns \<^verbatim>\<open>nil\<close>, \<^verbatim>\<open>isLocalIP\<close> returns false. This covers every
  host name (a string without a colon that has a character other than a digit and a dot)
  and every string that \<^verbatim>\<open>net.JoinHostPort\<close> makes of a host and a decimal port number.
\<close>

theorem non_literal_classified_non_local:
  "(ParseIP s = None \<longrightarrow> \<not> isLocalIP s)
   \<and> (CHR '':'' \<notin> set name \<and> (\<exists>c\<in>set name. \<not> is_digit c \<and> c \<noteq> CHR ''.'')
        \<longrightarrow> \<not> isLocalIP name)
   \<and> (port \<noteq> [] \<and> (\<forall>c\<in>set port. is_digit c) \<longrightarrow> \<not> isLocalIP (JoinHostPort host port))"
  using ParseIP_name [of name] ParseIP_JoinHostPort [of port host]
  by (auto simp add: isLocalIP_def)

text \<open>
  The malformed address 127.0.0.256, the name localhost, and the loopback addresses
  127.0.0.1 and ::1 once a port is joined to them.
\<close>

theorem non_literal_classified_non_local_witness:
  "ParseIP ''127.0.0.256'' = None \<and> \<not> isLocalIP ''127.0.0.256''
   \<and> CHR '':'' \<notin> set ''localhost'' \<and> \<not> is_digit (CHR ''l'') \<and> \<not> isLocalIP ''localhost''
   \<and> list_all is_digit ''6379''
   \<and> isLocalIP ''127.0.0.1'' \<and> \<not> isLocalIP ''127.0.0.1:6379''
   \<and> isLocalIP ''::1'' \<and> \<not> isLocalIP ''[::1]:6379''"
proof -
  have h1: "ParseIP ''127.0.0.256'' = None" by (simp add: classify_eval)
  have h2: "CHR '':'' \<notin> set ''localhost'' \<and>
            (\<exists>c\<in>set ''localhost''. \<not> is_digit c \<and> c \<noteq> CHR ''.'')"
    by (simp add: is_digit_def)
  have h3: "''6379'' \<noteq> [] \<and> (\<forall>c\<in>set ''6379''. is_digit c)"
    by (simp add: is_digit_def)
  have j: "JoinHostPort ''127.0.0.1'' ''6379'' = ''127.0.0.1:6379''"
    "JoinHostPort ''::1'' ''6379'' = ''[::1]:6379''"
    by (simp_all add: JoinHostPort_def)
  have l: "isLocalIP ''127.0.0.1''" "isLocalIP ''::1''"
    by (simp_all add: classify_eval upt_rec)
  have d: "\<not> is_digit (CHR ''l'')" by (simp add: is_digit_def)
  from non_literal_classified_non_local [of "''127.0.0.256''" "''localhost''" "''6379''" "''127.0.0.1''"]
    non_literal_classified_non_local [of "''127.0.0.256''" "''localhost''" "''6379''" "''::1''"]
    h1 h2 h3 j l d
  show ?thesis by (simp add: list_all_iff)
qed

end
